theory Spec2Isabelle
  imports Main "HOL-Library.Word" "HOL-Library.Multiset"
begin

unbundle bit_operations_syntax

section \<open>The KeyValue container (src/new/keyvalue.cpp)\<close>

text \<open>
  A KeyValue object packs key/value pairs into one in-memory page and spills full pages
  to a file.  The embedding keeps the byte level of the source: the process memory and
  the spill file are maps from addresses (offsets) to bytes, pointers are addresses,
  and every method is a function from the object's state to its new state, or to the
  fatal error it raises.

  Conventions of the embedding:
  \<^item> addresses and byte counts (\<open>uint64_t\<close> in keyvalue.cpp) are natural numbers: no
    address of a live buffer wraps around \<open>2^64\<close>;
  \<^item> \<open>int\<close> values that the source stores in memory or truncates are written out: the
    two record lengths are stored as four little-endian bytes each, and
    \<open>int kvbytes = nptr - iptr\<close> is the truncation of the pointer difference to a signed
    32-bit value;
  \<^item> a user buffer \<open>(char *key, int keybytes)\<close> is the list of its bytes, \<open>keybytes\<close>
    being its length;
  \<^item> \<open>pages\<close> is the array of page descriptors; its reallocation in chunks of
    \<open>PAGECHUNK\<close> entries is not visible in the result and the array is a function from
    indices to descriptors;
  \<^item> \<open>fopen\<close> is the only call of the source whose failure is checked; whether it
    succeeds is the field \<open>fopen_ok\<close> of the state.  The statistics counters \<open>rsize\<close>
    and \<open>wsize\<close> are left out.
\<close>

type_synonym byte = "8 word"
type_synonym memory = "nat \<Rightarrow> byte"

datatype error = ErrorAll string | ErrorOne string

definition ALIGNFILE :: nat where "ALIGNFILE = 512"
definition INTMAX :: nat where "INTMAX = 2147483647"
definition twolenbytes :: nat where "twolenbytes = 2 * 4"

text \<open>\<open>#define ROUNDUP(A,B) (char *) (((uint64_t) A + B) & ~B)\<close>, \<open>B\<close> an \<open>int\<close>.\<close>

definition ROUNDUP :: "nat \<Rightarrow> int \<Rightarrow> nat" where
  "ROUNDUP A B = nat ((int A + B) AND NOT B)"

text \<open>\<open>KeyValue::roundup\<close>: round \<open>n\<close> up to a multiple of \<open>nalign\<close>.\<close>

definition roundup :: "nat \<Rightarrow> nat \<Rightarrow> nat" where
  "roundup n nalign = (if n mod nalign = 0 then n else (n div nalign + 1) * nalign)"

text \<open>Conversion of a 64-bit value to \<open>int\<close>: the low 32 bits, read as two's complement.\<close>

definition to_int32 :: "int \<Rightarrow> int" where
  "to_int32 n = sint (word_of_int n :: 32 word)"

text \<open>\<open>*((int *) p) = n\<close> and \<open>n = *((int *) p)\<close> on a little-endian machine.\<close>

definition store_int :: "memory \<Rightarrow> nat \<Rightarrow> int \<Rightarrow> memory" where
  "store_int m p n =
     (\<lambda>a. if p \<le> a \<and> a < p + 4 then word_of_int (n div 256 ^ (a - p)) else m a)"

definition load_int :: "memory \<Rightarrow> nat \<Rightarrow> int" where
  "load_int m p =
     to_int32 (uint (m p) + 256 * uint (m (p + 1)) + 65536 * uint (m (p + 2))
               + 16777216 * uint (m (p + 3)))"

text \<open>\<open>memcpy\<close> from a user buffer into memory, and the bytes a pointer and a length denote.\<close>

definition store_bytes :: "memory \<Rightarrow> nat \<Rightarrow> byte list \<Rightarrow> memory" where
  "store_bytes m p bs = (\<lambda>a. if p \<le> a \<and> a < p + length bs then bs ! (a - p) else m a)"

definition load_bytes :: "memory \<Rightarrow> nat \<Rightarrow> nat \<Rightarrow> byte list" where
  "load_bytes m p n = map m [p ..< p + n]"

text \<open>The stream \<open>fp\<close>: closed (\<open>NULL\<close>) or open in one of the three modes the source uses.\<close>

datatype fmode = WB | RB | RPB

record Page =
  pg_nkey :: nat
  pg_keysize :: nat
  pg_valuesize :: nat
  pg_exactsize :: nat
  pg_alignsize :: nat
  pg_filesize :: nat
  pg_fileoffset :: nat

record KeyValue =
  nkv :: nat
  ksize :: nat
  vsize :: nat
  tsize :: nat
  kalign :: int
  valign :: int
  talign :: int
  kalignm1 :: int
  valignm1 :: int
  talignm1 :: int
  nkey :: nat
  keysize :: nat
  valuesize :: nat
  alignsize :: nat
  page :: nat
  pagesize :: nat
  pages :: "nat \<Rightarrow> Page"
  npage :: nat
  fileflag :: bool
  fp :: "fmode option"
  mem :: memory
  fdata :: "nat \<Rightarrow> byte"
  filelen :: nat
  fopen_ok :: bool

definition init_page :: "KeyValue \<Rightarrow> KeyValue" where
  "init_page kv = kv\<lparr>nkey := 0, keysize := 0, valuesize := 0, alignsize := 0\<rparr>"

text \<open>
  The constructor.  \<open>memblock\<close> and \<open>memsize\<close> are the page the driver hands over;
  \<open>m\<close> is the memory and \<open>ok\<close> the behaviour of \<open>fopen\<close> the object will see.
  \<open>talign = MAX(MAX(kalign,valign),sizeof(int))\<close>.
\<close>

definition KeyValue_new :: "memory \<Rightarrow> bool \<Rightarrow> nat \<Rightarrow> nat \<Rightarrow> int \<Rightarrow> int \<Rightarrow> KeyValue" where
  "KeyValue_new m ok memblock memsize memkalign memvalign =
     (let t0 = (if memkalign > memvalign then memkalign else memvalign);
          t = (if t0 > 4 then t0 else 4)
      in init_page
        \<lparr>nkv = 0, ksize = 0, vsize = 0, tsize = 0,
         kalign = memkalign, valign = memvalign, talign = t,
         kalignm1 = memkalign - 1, valignm1 = memvalign - 1, talignm1 = t - 1,
         nkey = 0, keysize = 0, valuesize = 0, alignsize = 0,
         page = memblock, pagesize = memsize,
         pages = (\<lambda>_. \<lparr>pg_nkey = 0, pg_keysize = 0, pg_valuesize = 0, pg_exactsize = 0,
                        pg_alignsize = 0, pg_filesize = 0, pg_fileoffset = 0\<rparr>),
         npage = 0, fileflag = False, fp = None,
         mem = m, fdata = (\<lambda>_. 0), filelen = 0, fopen_ok = ok\<rparr>)"

definition create_page :: "KeyValue \<Rightarrow> KeyValue" where
  "create_page kv =
     kv\<lparr>pages := (pages kv)(npage kv :=
        \<lparr>pg_nkey = nkey kv, pg_keysize = keysize kv, pg_valuesize = valuesize kv,
         pg_exactsize = nkey kv * twolenbytes + keysize kv + valuesize kv,
         pg_alignsize = alignsize kv,
         pg_filesize = roundup (alignsize kv) ALIGNFILE,
         pg_fileoffset =
           (if npage kv \<noteq> 0
            then pg_fileoffset (pages kv (npage kv - 1)) + pg_filesize (pages kv (npage kv - 1))
            else 0)\<rparr>)\<rparr>"

text \<open>
  \<open>fseek\<close> and \<open>fwrite\<close> of \<open>n\<close> bytes at offset \<open>off\<close>: a stream opened for reading
  only takes no data; a write past the end leaves a hole of zero bytes.
\<close>

definition file_write :: "KeyValue \<Rightarrow> nat \<Rightarrow> nat \<Rightarrow> KeyValue" where
  "file_write kv off n =
     (if fp kv = Some RB \<or> n = 0 then kv
      else kv\<lparr>fdata := (\<lambda>x. if off \<le> x \<and> x < off + n then mem kv (page kv + (x - off))
                            else fdata kv x),
              filelen := max (filelen kv) (off + n)\<rparr>)"

text \<open>\<open>fseek\<close> and \<open>fread\<close> into the page: bytes past the end of the file are not read.\<close>

definition file_read :: "KeyValue \<Rightarrow> nat \<Rightarrow> nat \<Rightarrow> KeyValue" where
  "file_read kv off n =
     kv\<lparr>mem := (\<lambda>a. if page kv \<le> a \<and> a < page kv + n \<and> off + (a - page kv) < filelen kv
                    then fdata kv (off + (a - page kv)) else mem kv a)\<rparr>"

text \<open>\<open>fopen(filename,"wb")\<close> creates the file or truncates it to length zero.\<close>

definition write_page :: "KeyValue \<Rightarrow> error + KeyValue" where
  "write_page kv =
     (if fp kv = None \<and> \<not> fopen_ok kv
      then Inl (ErrorOne ''Could not open KeyValue file for writing.'')
      else
        let kv1 = (if fp kv = None
                   then kv\<lparr>fp := Some WB, fdata := (\<lambda>_. 0), filelen := 0, fileflag := True\<rparr>
                   else kv)
        in Inr (file_write kv1 (pg_fileoffset (pages kv1 (npage kv1)))
                               (pg_filesize (pages kv1 (npage kv1)))))"

definition read_page :: "KeyValue \<Rightarrow> nat \<Rightarrow> bool \<Rightarrow> error + KeyValue" where
  "read_page kv ipage writeflag =
     (if fp kv = None \<and> \<not> fopen_ok kv
      then Inl (ErrorOne ''Could not open KeyValue file for reading'')
      else
        let kv1 = (if fp kv = None
                   then kv\<lparr>fp := Some (if writeflag then RPB else RB)\<rparr>
                   else kv)
        in Inr (file_read kv1 (pg_fileoffset (pages kv1 ipage))
                              (pg_filesize (pages kv1 ipage))))"

text \<open>\<open>KeyValue::complete\<close>: the in-memory page becomes the last page; totals are summed.\<close>

definition set_totals :: "KeyValue \<Rightarrow> KeyValue" where
  "set_totals kv =
     kv\<lparr>nkv := (\<Sum>ipage \<leftarrow> [0 ..< npage kv]. pg_nkey (pages kv ipage)),
        ksize := (\<Sum>ipage \<leftarrow> [0 ..< npage kv]. pg_keysize (pages kv ipage)),
        vsize := (\<Sum>ipage \<leftarrow> [0 ..< npage kv]. pg_valuesize (pages kv ipage)),
        tsize := (\<Sum>ipage \<leftarrow> [0 ..< npage kv]. pg_exactsize (pages kv ipage))\<rparr>"

definition complete :: "KeyValue \<Rightarrow> error + KeyValue" where
  "complete kv =
     (let kv1 = create_page kv in
      case (if fileflag kv1
            then (case write_page kv1 of
                    Inl e \<Rightarrow> Inl e
                  | Inr kv2 \<Rightarrow> Inr (kv2\<lparr>fp := None\<rparr>))
            else Inr kv1) of
        Inl e \<Rightarrow> Inl e
      | Inr kv3 \<Rightarrow> Inr (set_totals (init_page (kv3\<lparr>npage := npage kv3 + 1\<rparr>))))"

text \<open>\<open>KeyValue::request_info\<close> returns \<open>npage\<close> and the page pointer.\<close>

definition request_info :: "KeyValue \<Rightarrow> nat \<times> nat" where
  "request_info kv = (npage kv, page kv)"

text \<open>
  \<open>KeyValue::request_page\<close>: the result is the new state, the number of pairs of the
  page and the three sizes returned through the reference parameters.
\<close>

definition request_page :: "KeyValue \<Rightarrow> nat \<Rightarrow> error + (KeyValue \<times> nat \<times> nat \<times> nat \<times> nat)" where
  "request_page kv ipage =
     (case (if fileflag kv then read_page kv ipage False else Inr kv) of
        Inl e \<Rightarrow> Inl e
      | Inr kv1 \<Rightarrow>
          let kv2 = (if int ipage = int (npage kv1) - 1 \<and> fileflag kv1
                     then kv1\<lparr>fp := None\<rparr> else kv1)
          in Inr (kv2, pg_nkey (pages kv2 ipage), pg_keysize (pages kv2 ipage),
                  pg_valuesize (pages kv2 ipage), pg_alignsize (pages kv2 ipage)))"

text \<open>
  \<open>KeyValue::add(char *key, int keybytes, char *value, int valuebytes)\<close>.
  The recursive call of the source is taken after the full page has been flushed, on a
  page that \<open>init_page\<close> has emptied.
\<close>

function add :: "KeyValue \<Rightarrow> byte list \<Rightarrow> byte list \<Rightarrow> error + KeyValue" where
  "add kv key val =
     (let keybytes = length key; valuebytes = length val;
          iptr = page kv + alignsize kv;
          kptr = ROUNDUP (iptr + twolenbytes) (kalignm1 kv);
          vptr = ROUNDUP (kptr + keybytes) (valignm1 kv);
          nptr = ROUNDUP (vptr + valuebytes) (talignm1 kv);
          kvbytes = to_int32 (int nptr - int iptr)
      in if kvbytes < 0 then Inl (ErrorOne ''Single key/value pair exceeds int size'')
         else if int (alignsize kv) + kvbytes > int (pagesize kv) \<or> nkey kv = INTMAX then
           (if alignsize kv = 0
            then Inl (ErrorOne ''Single key/value pair exceeds page size'')
            else (case write_page (create_page kv) of
                    Inl e \<Rightarrow> Inl e
                  | Inr kv1 \<Rightarrow> add (init_page (kv1\<lparr>npage := npage kv1 + 1\<rparr>)) key val))
         else Inr (kv\<lparr>mem := store_bytes (store_bytes
                               (store_int (store_int (mem kv) iptr (int keybytes))
                                          (iptr + 4) (int valuebytes))
                               kptr key) vptr val,
                      nkey := nkey kv + 1,
                      keysize := keysize kv + keybytes,
                      valuesize := valuesize kv + valuebytes,
                      alignsize := alignsize kv + nat kvbytes\<rparr>))"
  by pat_completeness auto
termination
  by (relation "measure (\<lambda>(kv, key, val). if alignsize kv = 0 then 0 else 1)")
     (auto simp: init_page_def)

declare add.simps [simp del]

text \<open>A sequence of \<open>add\<close> calls; a fatal error ends it.\<close>

fun add_all :: "KeyValue \<Rightarrow> (byte list \<times> byte list) list \<Rightarrow> error + KeyValue" where
  "add_all kv [] = Inr kv"
| "add_all kv ((key, val) # rest) =
     (case add kv key val of Inl e \<Rightarrow> Inl e | Inr kv1 \<Rightarrow> add_all kv1 rest)"

text \<open>
  The loop every consumer of a page runs (for example \<open>MapReduce::map(MapReduce *, ...)\<close>,
  lines 1311 to 1327 of mapreduce.cpp): starting at the page pointer, read the two
  lengths, round up to the key, skip it, round up to the value, skip it, and round up
  to the next pair.  An entry is the start of the pair, the key pointer, \<open>keybytes\<close>,
  the value pointer and \<open>valuebytes\<close>.
\<close>

type_synonym entry = "nat \<times> nat \<times> int \<times> nat \<times> int"

fun walk :: "memory \<Rightarrow> int \<Rightarrow> int \<Rightarrow> int \<Rightarrow> nat \<Rightarrow> nat \<Rightarrow> entry list" where
  "walk m ka va ta ptr 0 = []"
| "walk m ka va ta ptr (Suc n) =
     (let keybytes = load_int m ptr;
          valuebytes = load_int m (ptr + 4);
          kptr = ROUNDUP (ptr + twolenbytes) ka;
          vptr = ROUNDUP (nat (int kptr + keybytes)) va;
          nptr = ROUNDUP (nat (int vptr + valuebytes)) ta
      in (ptr, kptr, keybytes, vptr, valuebytes) # walk m ka va ta nptr n)"

text \<open>The key and value bytes an entry denotes in the memory it was read from.\<close>

definition entry_kv :: "memory \<Rightarrow> entry \<Rightarrow> byte list \<times> byte list" where
  "entry_kv m e = (case e of (start, kptr, keybytes, vptr, valuebytes) \<Rightarrow>
     (load_bytes m kptr (nat keybytes), load_bytes m vptr (nat valuebytes)))"

text \<open>
  A full iteration: \<open>request_info\<close>, then \<open>request_page\<close> and the walk for each page in
  turn.  The result is, page by page, the entries met and the pairs they denote.
\<close>

fun iterate_pages ::
  "KeyValue \<Rightarrow> nat list \<Rightarrow> error + (KeyValue \<times> (entry \<times> byte list \<times> byte list) list list)" where
  "iterate_pages kv [] = Inr (kv, [])"
| "iterate_pages kv (ipage # rest) =
     (case request_page kv ipage of
        Inl e \<Rightarrow> Inl e
      | Inr (kv1, nkey_page, sizes) \<Rightarrow>
          let es = walk (mem kv1) (kalignm1 kv1) (valignm1 kv1) (talignm1 kv1)
                        (snd (request_info kv1)) nkey_page;
              recs = map (\<lambda>e. (e, entry_kv (mem kv1) e)) es
          in (case iterate_pages kv1 rest of
                Inl e \<Rightarrow> Inl e
              | Inr (kv2, rest_recs) \<Rightarrow> Inr (kv2, recs # rest_recs)))"

definition iterate :: "KeyValue \<Rightarrow> error + (KeyValue \<times> (entry \<times> byte list \<times> byte list) list list)" where
  "iterate kv = iterate_pages kv [0 ..< fst (request_info kv)]"

text \<open>
  \<open>KeyValue::append\<close>: prepare a completed object for more pairs.  The last page comes
  back into memory (from the file when there is one) and leaves the page list.
\<close>

definition append :: "KeyValue \<Rightarrow> error + KeyValue" where
  "append kv =
     (if npage kv = 0 then Inr kv
      else
        let ipage = npage kv - 1 in
        case (if fileflag kv then read_page kv ipage True else Inr kv) of
          Inl e \<Rightarrow> Inl e
        | Inr kv1 \<Rightarrow>
            Inr (kv1\<lparr>nkey := pg_nkey (pages kv1 ipage),
                     keysize := pg_keysize (pages kv1 ipage),
                     valuesize := pg_valuesize (pages kv1 ipage),
                     alignsize := pg_alignsize (pages kv1 ipage),
                     npage := npage kv1 - 1\<rparr>))"

text \<open>A memory of zero bytes, for concrete instances.\<close>

definition zero_mem :: memory where
  "zero_mem = (\<lambda>a. 0)"

section \<open>The driver (src/new/mapreduce.cpp)\<close>

text \<open>
  A MapReduce object owns at most one KeyValue and one KeyMultiValue object.  Every
  operator is called by all ranks of the group; it works on the rank's own containers,
  possibly exchanges data, and ends with \<open>MPI_Allreduce\<close> of the rank's pair count and
  returns the sum.  The embedding has one state per rank; a group is the list of the
  states of its ranks, rank \<open>r\<close> at index \<open>r\<close>, and an operator maps a group to the list
  of each rank's new state and return value, or to the fatal error that aborts the
  group (\<open>error->all\<close>, \<open>error->one\<close>).

  Of the classes the driver uses, only KeyValue is in the sources at hand.  The parts of
  an operator that run on KeyMultiValue, Irregular, Spool, on point-to-point messages or
  on the user's callbacks are parameters of its embedding: functions from containers to
  containers (or to an error), named where they are used.  What is proved holds for all
  of them.  \<open>start_timer\<close> reads the clock only and is left out; of what \<open>stats\<close>
  prints, the lines are kept without their numbers.
\<close>

text \<open>
  The KeyMultiValue container (keymultivalue.cpp is not among the sources) is embedded as
  the driver reads it in the pointer walks of \<open>reduce\<close>, \<open>compress\<close> and
  \<open>sort_multivalues\<close>.  A page is the list of its records; a record is a key, the stored
  \<open>nvalues\<close> and the values.  \<open>nvalues\<close> is positive for a multivalue held in the page;
  otherwise the record is the header of a block-split multivalue, whose values are on the
  \<open>- nvalues\<close> pages that follow (\<open>nblock_kmv = -nvalues\<close>, \<open>multivalue_block\<close>).  \<open>nkmv\<close> is
  the number of records.
\<close>

type_synonym kmvrec = "byte list \<times> int \<times> byte list list"

record KeyMultiValue =
  nkmv :: nat
  kmv_pages :: "kmvrec list list"

datatype printed = TimeLine string | HeadLine string | KVLine | KMVLine

record MapReduce =
  mr_instance :: nat
  me :: nat
  nprocs :: nat
  mapstyle :: int
  verbosity :: int
  timer :: int
  mr_memsize :: int
  keyalign :: int
  valuealign :: int
  allocated :: bool
  mr_memblock :: nat
  mr_kalign :: int
  mr_valign :: int
  mr_talign :: int
  memquarter :: nat
  memhalf :: nat
  mem0 :: nat
  mem1 :: nat
  mem2 :: nat
  memavail :: nat
  memtoggle :: int
  mr_kv :: "KeyValue option"
  mr_kmv :: "KeyMultiValue option"
  printout :: "printed list"
  heap :: nat
  ram :: memory
  disk_ok :: bool

type_synonym group = "MapReduce list"

text \<open>
  The constructor: the defaults of \<open>MapReduce::MapReduce\<close>.  \<open>heap\<close> is the address
  \<open>smalloc_align\<close> will return, \<open>ram\<close> the memory and \<open>disk_ok\<close> the behaviour of \<open>fopen\<close>
  that the containers of this object will see.
\<close>

definition MBYTES :: int where "MBYTES = 100"
definition ALIGNKV :: int where "ALIGNKV = 4"

definition MapReduce_new :: "nat \<Rightarrow> nat \<Rightarrow> nat \<Rightarrow> nat \<Rightarrow> MapReduce" where
  "MapReduce_new inst rank procs addr =
     \<lparr>mr_instance = inst, me = rank, nprocs = procs,
      mapstyle = 0, verbosity = 0, timer = 0, mr_memsize = MBYTES,
      keyalign = ALIGNKV, valuealign = ALIGNKV,
      allocated = False, mr_memblock = 0,
      mr_kalign = 0, mr_valign = 0, mr_talign = 0,
      memquarter = 0, memhalf = 0, mem0 = 0, mem1 = 0, mem2 = 0, memavail = 0, memtoggle = 0,
      mr_kv = None, mr_kmv = None, printout = [],
      heap = addr, ram = zero_mem, disk_ok = True\<rparr>"

text \<open>\<open>tmp = 1; while (tmp < kalign) tmp *= 2;\<close> with \<open>tmp = 2 ^ n\<close>.\<close>

function pow2_loop :: "nat \<Rightarrow> int \<Rightarrow> int" where
  "pow2_loop n k = (if 2 ^ n < k then pow2_loop (n + 1) k else 2 ^ n)"
  by pat_completeness auto
termination
  by (relation "measure (\<lambda>(n, k). nat (k - 2 ^ n))") auto

declare pow2_loop.simps [simp del]

text \<open>
  \<open>MapReduce::allocate\<close>.  \<open>size_t nbytes = memsize * 1024*1024\<close> multiplies \<open>int\<close>s and
  converts the product.
\<close>

definition allocate :: "MapReduce \<Rightarrow> error + MapReduce" where
  "allocate mr =
     (if mr_memsize mr \<le> 0 then Inl (ErrorAll ''Invalid memsize setting'')
      else
        let nbytes = nat (to_int32 (mr_memsize mr * 1024 * 1024) mod 2 ^ 64);
            block = heap mr;
            m = (\<lambda>a. if block \<le> a \<and> a < block + nbytes then 0 else ram mr a)
        in if pow2_loop 0 (keyalign mr) \<noteq> keyalign mr
             then Inl (ErrorAll ''Invalid alignment setting'')
           else if pow2_loop 0 (valuealign mr) \<noteq> valuealign mr
             then Inl (ErrorAll ''Invalid alignment setting'')
           else Inr (mr\<lparr>mr_memblock := block, ram := m,
                        mr_kalign := keyalign mr, mr_valign := valuealign mr,
                        mr_talign := max (max (keyalign mr) (valuealign mr)) 4,
                        memquarter := nbytes div 4, memhalf := nbytes div 2,
                        mem0 := block, mem1 := block + nbytes div 4,
                        mem2 := block + nbytes div 2,
                        memavail := block, memtoggle := 0, allocated := True\<rparr>))"

definition memswap :: "MapReduce \<Rightarrow> MapReduce" where
  "memswap mr =
     (if memavail mr = mem0 mr then mr\<lparr>memavail := mem1 mr, memtoggle := 1\<rparr>
      else mr\<lparr>memavail := mem0 mr, memtoggle := 0\<rparr>)"

text \<open>\<open>kv = new KeyValue(comm,memavail,memquarter,...,kalign,valign,...); memswap();\<close>\<close>

definition new_kv :: "MapReduce \<Rightarrow> MapReduce" where
  "new_kv mr =
     memswap (mr\<lparr>mr_kv := Some (KeyValue_new (ram mr) (disk_ok mr) (memavail mr) (memquarter mr)
                                              (mr_kalign mr) (mr_valign mr))\<rparr>)"

text \<open>\<open>kv_stats\<close>, \<open>kmv_stats\<close> and \<open>stats\<close>: rank 0 prints; the other ranks take part.\<close>

definition say :: "printed \<Rightarrow> MapReduce \<Rightarrow> MapReduce" where
  "say x mr = (if me mr = 0 then mr\<lparr>printout := printout mr @ [x]\<rparr> else mr)"

definition kv_stats :: "int \<Rightarrow> MapReduce \<Rightarrow> error + MapReduce" where
  "kv_stats level mr =
     (case mr_kv mr of
        None \<Rightarrow> Inl (ErrorAll ''Cannot print stats without KeyValue'')
      | Some kv \<Rightarrow> Inr (say KVLine mr))"

definition kmv_stats :: "int \<Rightarrow> MapReduce \<Rightarrow> error + MapReduce" where
  "kmv_stats level mr =
     (case mr_kmv mr of
        None \<Rightarrow> Inl (ErrorAll ''Cannot print stats without KeyMultiValue'')
      | Some k \<Rightarrow> Inr (say KMVLine mr))"

definition stats :: "string \<Rightarrow> int \<Rightarrow> int \<Rightarrow> MapReduce \<Rightarrow> error + MapReduce" where
  "stats heading which level mr =
     (let mr1 = (if timer mr = 1 \<or> timer mr = 2 then say (TimeLine heading) mr else mr)
      in if level = 0 then Inr mr1
         else if which = 0 then kv_stats level (say (HeadLine heading) mr1)
         else kmv_stats level (say (HeadLine heading) mr1))"

text \<open>
  \<open>MPI_Allreduce(..., 1, MPI_INT, MPI_SUM, comm)\<close>: the sum of the ranks' \<open>int\<close>s, as an
  \<open>int\<close>.  The operand of a rank is the \<open>nkv\<close> of its KeyValue, or the \<open>nkmv\<close> of its
  KeyMultiValue (the operators read it where the container exists).
\<close>

definition allreduce_sum :: "int list \<Rightarrow> int" where
  "allreduce_sum xs = to_int32 (sum_list xs)"

definition kv_count :: "MapReduce \<Rightarrow> int" where
  "kv_count mr = (case mr_kv mr of None \<Rightarrow> 0 | Some kv \<Rightarrow> int (nkv kv))"

definition kmv_count :: "MapReduce \<Rightarrow> int" where
  "kmv_count mr = (case mr_kmv mr of None \<Rightarrow> 0 | Some k \<Rightarrow> int (nkmv k))"

text \<open>Every rank runs the same code on its own state; the first error aborts the group.\<close>

fun each_rank :: "('a \<Rightarrow> error + 'b) \<Rightarrow> 'a list \<Rightarrow> error + 'b list" where
  "each_rank f [] = Inr []"
| "each_rank f (x # xs) =
     (case f x of
        Inl e \<Rightarrow> Inl e
      | Inr y \<Rightarrow> (case each_rank f xs of Inl e \<Rightarrow> Inl e | Inr ys \<Rightarrow> Inr (y # ys)))"

text \<open>The end of an operator: \<open>MPI_Allreduce\<close> of the counts, returned by every rank.\<close>

definition return_count :: "(MapReduce \<Rightarrow> int) \<Rightarrow> group \<Rightarrow> (MapReduce \<times> int) list" where
  "return_count cnt w = map (\<lambda>mr. (mr, allreduce_sum (map cnt w))) w"

definition spmd ::
  "(MapReduce \<Rightarrow> error + MapReduce) \<Rightarrow> (MapReduce \<Rightarrow> int) \<Rightarrow> group \<Rightarrow>
   error + (MapReduce \<times> int) list" where
  "spmd f cnt w =
     (case each_rank f w of Inl e \<Rightarrow> Inl e | Inr w1 \<Rightarrow> Inr (return_count cnt w1))"

subsection \<open>Operators that turn a KeyValue into a KeyMultiValue\<close>

text \<open>
  \<open>clone\<close>, \<open>collapse\<close> and \<open>convert\<close>.  The parameter stands for
  \<open>kmv = new KeyMultiValue(...)\<close>, the KeyMultiValue method of the same name, and
  \<open>kmv->complete()\<close>.
\<close>

definition clone_rank ::
  "(MapReduce \<Rightarrow> KeyValue \<Rightarrow> error + KeyMultiValue) \<Rightarrow> MapReduce \<Rightarrow> error + MapReduce" where
  "clone_rank kmv_clone mr =
     (case mr_kv mr of
        None \<Rightarrow> Inl (ErrorAll ''Cannot clone without KeyValue'')
      | Some kv \<Rightarrow>
          (case kmv_clone mr kv of
             Inl e \<Rightarrow> Inl e
           | Inr k \<Rightarrow> stats ''Clone'' 1 (verbosity mr)
                        ((memswap mr)\<lparr>mr_kmv := Some k, mr_kv := None\<rparr>)))"

definition clone ::
  "(MapReduce \<Rightarrow> KeyValue \<Rightarrow> error + KeyMultiValue) \<Rightarrow> group \<Rightarrow> error + (MapReduce \<times> int) list" where
  "clone kmv_clone = spmd (clone_rank kmv_clone) kmv_count"

definition collapse_rank ::
  "(MapReduce \<Rightarrow> byte list \<Rightarrow> KeyValue \<Rightarrow> error + KeyMultiValue) \<Rightarrow> byte list \<Rightarrow>
   MapReduce \<Rightarrow> error + MapReduce" where
  "collapse_rank kmv_collapse key mr =
     (case mr_kv mr of
        None \<Rightarrow> Inl (ErrorAll ''Cannot collapse without KeyValue'')
      | Some kv \<Rightarrow>
          (case kmv_collapse mr key kv of
             Inl e \<Rightarrow> Inl e
           | Inr k \<Rightarrow> stats ''Collapse'' 1 (verbosity mr)
                        ((memswap mr)\<lparr>mr_kmv := Some k, mr_kv := None\<rparr>)))"

definition collapse ::
  "(MapReduce \<Rightarrow> byte list \<Rightarrow> KeyValue \<Rightarrow> error + KeyMultiValue) \<Rightarrow> byte list \<Rightarrow>
   group \<Rightarrow> error + (MapReduce \<times> int) list" where
  "collapse kmv_collapse key = spmd (collapse_rank kmv_collapse key) kmv_count"

definition convert_rank ::
  "(MapReduce \<Rightarrow> KeyValue \<Rightarrow> error + KeyMultiValue) \<Rightarrow> MapReduce \<Rightarrow> error + MapReduce" where
  "convert_rank kmv_convert mr =
     (case mr_kv mr of
        None \<Rightarrow> Inl (ErrorAll ''Cannot convert without KeyValue'')
      | Some kv \<Rightarrow>
          (case kmv_convert mr kv of
             Inl e \<Rightarrow> Inl e
           | Inr k \<Rightarrow> stats ''Convert'' 1 (verbosity mr)
                        ((memswap mr)\<lparr>mr_kmv := Some k, mr_kv := None\<rparr>)))"

definition convert ::
  "(MapReduce \<Rightarrow> KeyValue \<Rightarrow> error + KeyMultiValue) \<Rightarrow> group \<Rightarrow> error + (MapReduce \<times> int) list" where
  "convert kmv_convert = spmd (convert_rank kmv_convert) kmv_count"

subsection \<open>Operators that move pairs between ranks\<close>

text \<open>
  \<open>aggregate\<close>.  \<open>hash\<close> is the user's hash function, or \<open>None\<close> for \<open>NULL\<close>.  The
  parameter \<open>shuffle\<close> stands for lines 357 to 457: \<open>kvnew = new KeyValue(...)\<close> and the
  loop that sends every pair of every page to the rank its key hashes to (Irregular,
  \<open>hashlittle\<close>) and adds what arrives to \<open>kvnew\<close>.  It gives the \<open>kvnew\<close> of each rank.
\<close>

type_synonym hash = "byte list \<Rightarrow> int"

definition aggregate ::
  "(hash option \<Rightarrow> group \<Rightarrow> error + (nat \<Rightarrow> KeyValue)) \<Rightarrow> hash option \<Rightarrow> group \<Rightarrow>
   error + (MapReduce \<times> int) list" where
  "aggregate shuffle h w =
     (if list_ex (\<lambda>mr. mr_kv mr = None) w
      then Inl (ErrorAll ''Cannot aggregate without KeyValue'')
      else if list_all (\<lambda>mr. nprocs mr = 1) w then
        (case each_rank (\<lambda>mr. stats ''Aggregate'' 0 (verbosity mr) mr) w of
           Inl e \<Rightarrow> Inl e
         | Inr w1 \<Rightarrow> Inr (map (\<lambda>mr. (mr, to_int32 (kv_count mr))) w1))
      else
        (case shuffle h w of
           Inl e \<Rightarrow> Inl e
         | Inr kvnew \<Rightarrow>
             spmd (\<lambda>mr. case complete (kvnew (me mr)) of
                          Inl e \<Rightarrow> Inl e
                        | Inr kv \<Rightarrow> stats ''Aggregate'' 0 (verbosity mr)
                                      ((memswap mr)\<lparr>mr_kv := Some kv\<rparr>))
                  kv_count w))"

text \<open>
  \<open>gather\<close>.  The parameter \<open>move\<close> stands for lines 689 to 724: the ranks below
  \<open>numprocs\<close> append to their KeyValue the pages the other ranks send; the other ranks
  send theirs and start a new, empty KeyValue.  It gives the KeyValue of each rank.
\<close>

definition gather ::
  "(int \<Rightarrow> group \<Rightarrow> error + (nat \<Rightarrow> KeyValue)) \<Rightarrow> int \<Rightarrow> group \<Rightarrow>
   error + (MapReduce \<times> int) list" where
  "gather move numprocs w =
     (if list_ex (\<lambda>mr. mr_kv mr = None) w
      then Inl (ErrorAll ''Cannot gather without KeyValue'')
      else if list_ex (\<lambda>mr. numprocs < 1 \<or> numprocs > int (nprocs mr)) w
      then Inl (ErrorAll ''Invalid proc count for gather'')
      else if list_all (\<lambda>mr. nprocs mr = 1 \<or> numprocs = int (nprocs mr)) w then
        spmd (\<lambda>mr. stats ''Gather'' 0 (verbosity mr) mr) kv_count w
      else
        (case move numprocs w of
           Inl e \<Rightarrow> Inl e
         | Inr kvs \<Rightarrow>
             spmd (\<lambda>mr. case complete (kvs (me mr)) of
                          Inl e \<Rightarrow> Inl e
                        | Inr kv \<Rightarrow> stats ''Gather'' 0 (verbosity mr)
                                      ((if int (me mr) < numprocs then mr else memswap mr)
                                         \<lparr>mr_kv := Some kv\<rparr>))
                  kv_count w))"

text \<open>
  \<open>add(MapReduce *mr)\<close>.  \<open>other\<close> is the state of \<open>mr\<close> on the same rank; \<open>mr == this\<close>
  compares the objects, which \<open>instance\<close> numbers.  The parameter \<open>kv_add\<close> stands for
  \<open>kv->add(mr->kv)\<close>.
\<close>

definition add_rank ::
  "(KeyValue \<Rightarrow> KeyValue \<Rightarrow> error + KeyValue) \<Rightarrow> MapReduce \<times> MapReduce \<Rightarrow> error + MapReduce" where
  "add_rank kv_add x =
     (case x of (mr, other) \<Rightarrow>
        (case mr_kv mr of
           None \<Rightarrow> Inl (ErrorAll ''Cannot add without KeyValue'')
         | Some kv \<Rightarrow>
             (case mr_kv other of
                None \<Rightarrow> Inl (ErrorAll ''MapReduce passed to add() does not have KeyValue pairs'')
              | Some okv \<Rightarrow>
                  if mr_instance other = mr_instance mr then Inl (ErrorAll ''Cannot add to self'')
                  else
                    (case (if allocated mr then Inr mr else allocate mr) of
                       Inl e \<Rightarrow> Inl e
                     | Inr mr1 \<Rightarrow>
                         (case append kv of
                            Inl e \<Rightarrow> Inl e
                          | Inr kv1 \<Rightarrow>
                              (case kv_add kv1 okv of
                                 Inl e \<Rightarrow> Inl e
                               | Inr kv2 \<Rightarrow>
                                   (case complete kv2 of
                                      Inl e \<Rightarrow> Inl e
                                    | Inr kv3 \<Rightarrow> stats ''Add'' 0 (verbosity mr1)
                                                   (mr1\<lparr>mr_kv := Some kv3\<rparr>))))))))"

definition add_mr ::
  "(KeyValue \<Rightarrow> KeyValue \<Rightarrow> error + KeyValue) \<Rightarrow> group \<Rightarrow> group \<Rightarrow>
   error + (MapReduce \<times> int) list" where
  "add_mr kv_add others w =
     (case each_rank (add_rank kv_add) (zip w others) of
        Inl e \<Rightarrow> Inl e
      | Inr w1 \<Rightarrow> Inr (return_count kv_count w1))"

subsection \<open>\<open>collate\<close> and \<open>scrunch\<close>\<close>

text \<open>
  \<open>collate\<close> is \<open>aggregate\<close> followed by \<open>convert\<close>, and \<open>scrunch\<close> is \<open>gather\<close> followed by
  \<open>collapse\<close>, both run with \<open>verbosity\<close> and \<open>timer\<close> set to 0; the held values come back
  before \<open>stats\<close>.
\<close>

definition hold_settings :: "MapReduce \<Rightarrow> MapReduce" where
  "hold_settings mr = mr\<lparr>verbosity := 0, timer := 0\<rparr>"

definition restore_settings :: "string \<Rightarrow> MapReduce \<times> MapReduce \<Rightarrow> error + MapReduce" where
  "restore_settings heading x =
     (case x of (old, mr) \<Rightarrow>
        stats heading 1 (verbosity old) (mr\<lparr>verbosity := verbosity old, timer := timer old\<rparr>))"

definition collate ::
  "(hash option \<Rightarrow> group \<Rightarrow> error + (nat \<Rightarrow> KeyValue)) \<Rightarrow>
   (MapReduce \<Rightarrow> KeyValue \<Rightarrow> error + KeyMultiValue) \<Rightarrow> hash option \<Rightarrow> group \<Rightarrow>
   error + (MapReduce \<times> int) list" where
  "collate shuffle kmv_convert h w =
     (if list_ex (\<lambda>mr. mr_kv mr = None) w
      then Inl (ErrorAll ''Cannot collate without KeyValue'')
      else
        (case aggregate shuffle h (map hold_settings w) of
           Inl e \<Rightarrow> Inl e
         | Inr r1 \<Rightarrow>
             (case convert kmv_convert (map fst r1) of
                Inl e \<Rightarrow> Inl e
              | Inr r2 \<Rightarrow>
                  (case each_rank (restore_settings ''Collate'') (zip w (map fst r2)) of
                     Inl e \<Rightarrow> Inl e
                   | Inr w3 \<Rightarrow> Inr (return_count kmv_count w3)))))"

definition scrunch ::
  "(int \<Rightarrow> group \<Rightarrow> error + (nat \<Rightarrow> KeyValue)) \<Rightarrow>
   (MapReduce \<Rightarrow> byte list \<Rightarrow> KeyValue \<Rightarrow> error + KeyMultiValue) \<Rightarrow> int \<Rightarrow> byte list \<Rightarrow>
   group \<Rightarrow> error + (MapReduce \<times> int) list" where
  "scrunch move kmv_collapse numprocs key w =
     (if list_ex (\<lambda>mr. mr_kv mr = None) w
      then Inl (ErrorAll ''Cannot scrunch without KeyValue'')
      else
        (case gather move numprocs (map hold_settings w) of
           Inl e \<Rightarrow> Inl e
         | Inr r1 \<Rightarrow>
             (case collapse kmv_collapse key (map fst r1) of
                Inl e \<Rightarrow> Inl e
              | Inr r2 \<Rightarrow>
                  (case each_rank (restore_settings ''Scrunch'') (zip w (map fst r2)) of
                     Inl e \<Rightarrow> Inl e
                   | Inr w3 \<Rightarrow> Inr (return_count kmv_count w3)))))"

subsection \<open>Sorting a KeyValue: \<open>sort_kv\<close> and \<open>merge\<close>\<close>

text \<open>
  \<open>sort_kv\<close> and \<open>merge\<close> are embedded on the pairs the pages hold: a page is the list of
  its pairs in page order, as the pointer walk of \<open>sort_kv\<close> meets them.  \<open>compare\<close> is
  the user's \<open>appcompare\<close>; \<open>qsort\<close> is the C library's, a parameter; it sorts the index
  vector \<open>order\<close>.
\<close>

type_synonym kvrec = "byte list \<times> byte list"
type_synonym compare = "byte list \<Rightarrow> byte list \<Rightarrow> int"
type_synonym qsort = "(nat \<Rightarrow> nat \<Rightarrow> int) \<Rightarrow> nat list \<Rightarrow> nat list"

text \<open>\<open>MapReduce::extract\<close>: the key (\<open>flag = 0\<close>) or the value of an entry.\<close>

definition extract_str :: "int \<Rightarrow> kvrec \<Rightarrow> byte list" where
  "extract_str flag e = (if flag = 0 then fst e else snd e)"

text \<open>
  \<open>compare_wrapper(i,j)\<close>: \<open>soffset\<close> and \<open>slength\<close> were set by the first loop over the
  page to the keys (or values) of its pairs.
\<close>

definition compare_wrapper :: "compare \<Rightarrow> int \<Rightarrow> kvrec list \<Rightarrow> nat \<Rightarrow> nat \<Rightarrow> int" where
  "compare_wrapper cmp flag recs i j =
     cmp (extract_str flag (recs ! i)) (extract_str flag (recs ! j))"

text \<open>
  One page: \<open>order[i] = i\<close>, \<open>qsort(order,nkey,...)\<close>, then the pairs are copied out in
  the order \<open>order[0], order[1], ...\<close>.
\<close>

definition sort_page :: "qsort \<Rightarrow> compare \<Rightarrow> int \<Rightarrow> kvrec list \<Rightarrow> kvrec list" where
  "sort_page qs cmp flag recs =
     map (\<lambda>j. recs ! j) (qs (compare_wrapper cmp flag recs) [0 ..< length recs])"

text \<open>
  A Spool (spool.cpp is not among the sources) is embedded by what the driver does with
  it: entries are added one by one, the spool is completed, and its pages are requested
  in order, each giving a number of entries.  Here it is the list of its pages, each the
  list of its entries.  How \<open>Spool::add\<close> and \<open>Spool::complete\<close> split the entries added
  into pages is the parameter \<open>paginate\<close> of the functions below.
\<close>

type_synonym spool = "kvrec list list"

text \<open>
  The state of the loop of \<open>merge\<close>: for each source the entries of the current page from
  \<open>ptr\<close> on and the pages after \<open>ipage\<close>; \<open>done\<close>, \<open>result\<close>, and the entries added to
  \<open>dest\<close>.
\<close>

record merge_state =
  cur1 :: "kvrec list"
  rest1 :: "kvrec list list"
  cur2 :: "kvrec list"
  rest2 :: "kvrec list list"
  mdone :: nat
  mresult :: int
  dest :: "kvrec list"

text \<open>
  The two halves of the loop body.  Each gives \<open>Inl\<close> of the state at \<open>break\<close> or \<open>Inr\<close> of
  the state to go on with.
\<close>

definition take1 :: "merge_state \<Rightarrow> merge_state + merge_state" where
  "take1 s =
     (if mresult s \<le> 0 then
        let s1 = s\<lparr>dest := dest s @ [hd (cur1 s)], cur1 := tl (cur1 s)\<rparr>
        in if cur1 s1 = [] then
             (case rest1 s1 of
                p # ps \<Rightarrow> Inr (s1\<lparr>cur1 := p, rest1 := ps\<rparr>)
              | [] \<Rightarrow> if mdone s1 + 1 = 2 then Inl (s1\<lparr>mdone := 2\<rparr>)
                      else Inr (s1\<lparr>mdone := mdone s1 + 1, mresult := 1\<rparr>))
           else Inr s1
      else Inr s)"

definition take2 :: "merge_state \<Rightarrow> merge_state + merge_state" where
  "take2 s =
     (if mresult s \<ge> 0 then
        let s1 = s\<lparr>dest := dest s @ [hd (cur2 s)], cur2 := tl (cur2 s)\<rparr>
        in if cur2 s1 = [] then
             (case rest2 s1 of
                p # ps \<Rightarrow> Inr (s1\<lparr>cur2 := p, rest2 := ps\<rparr>)
              | [] \<Rightarrow> if mdone s1 + 1 = 2 then Inl (s1\<lparr>mdone := 2\<rparr>)
                      else Inr (s1\<lparr>mdone := mdone s1 + 1, mresult := - 1\<rparr>))
           else Inr s1
      else Inr s)"

definition merge_step :: "compare \<Rightarrow> int \<Rightarrow> merge_state \<Rightarrow> merge_state + merge_state" where
  "merge_step cmp flag s =
     (let s0 = (if mdone s = 0
                then s\<lparr>mresult := cmp (extract_str flag (hd (cur1 s)))
                                       (extract_str flag (hd (cur2 s)))\<rparr>
                else s)
      in case take1 s0 of Inl t \<Rightarrow> Inl t | Inr s1 \<Rightarrow> take2 s1)"

definition merge_size :: "merge_state \<Rightarrow> nat" where
  "merge_size s =
     length (cur1 s) + length (concat (rest1 s)) + length (rest1 s) +
     length (cur2 s) + length (concat (rest2 s)) + length (rest2 s) + (2 - mdone s)"

text \<open>
  \<open>while (1)\<close>.  Every pass adds an entry, turns a page or counts a source as done, so
  \<open>merge_size\<close> goes down; the test on it is never false in a run that starts with
  \<open>done = 0\<close>, and keeps the recursion well-founded for the other states.
\<close>

function merge_loop :: "compare \<Rightarrow> int \<Rightarrow> merge_state \<Rightarrow> merge_state" where
  "merge_loop cmp flag s =
     (case merge_step cmp flag s of
        Inl t \<Rightarrow> t
      | Inr s1 \<Rightarrow> if merge_size s1 < merge_size s then merge_loop cmp flag s1 else s1)"
  by pat_completeness auto
termination
  by (relation "measure (\<lambda>(cmp, flag, s). merge_size s)") auto

declare merge_loop.simps [simp del]

text \<open>
  \<open>MapReduce::merge\<close>: the entries added to \<open>dest\<close>.  The first page of each source is
  requested before the loop.
\<close>

definition merge :: "compare \<Rightarrow> int \<Rightarrow> spool \<Rightarrow> spool \<Rightarrow> kvrec list" where
  "merge cmp flag s1 s2 =
     dest (merge_loop cmp flag
             \<lparr>cur1 = hd s1, rest1 = tl s1, cur2 = hd s2, rest2 = tl s2,
              mdone = 0, mresult = 0, dest = []\<rparr>)"

text \<open>
  The merge passes: \<open>npage - 1\<close> times, the two oldest spools \<open>spools[isrc]\<close>,
  \<open>spools[isrc+1]\<close> are merged into a new last one, \<open>spools[idest]\<close>.  The list holds
  the spools from \<open>isrc\<close> to \<open>idest - 1\<close>.
\<close>

fun merge_passes :: "(kvrec list \<Rightarrow> spool) \<Rightarrow> compare \<Rightarrow> int \<Rightarrow> nat \<Rightarrow> spool list \<Rightarrow> spool list" where
  "merge_passes paginate cmp flag 0 sps = sps"
| "merge_passes paginate cmp flag (Suc n) (a # b # sps) =
     merge_passes paginate cmp flag n (sps @ [paginate (merge cmp flag a b)])"
| "merge_passes paginate cmp flag (Suc n) sps = sps"

text \<open>
  \<open>sort_kv\<close> on the pages of a KeyValue: the pairs of the sorted page (one page), or the
  pages of the last spool, which go to the new KeyValue (several pages).
\<close>

definition sort_pages :: "qsort \<Rightarrow> (kvrec list \<Rightarrow> spool) \<Rightarrow> compare \<Rightarrow> int \<Rightarrow> kvrec list list \<Rightarrow> spool" where
  "sort_pages qs paginate cmp flag pgs =
     (if length pgs = 1 then [sort_page qs cmp flag (hd pgs)]
      else last (merge_passes paginate cmp flag (length pgs - 1)
                   (map (\<lambda>p. paginate (sort_page qs cmp flag p)) pgs)))"

text \<open>
  \<open>sort_kv(flag)\<close> on the containers.  The pages are read with \<open>request_page\<close> and the
  pointer walk.  The parameter \<open>page_store\<close> stands for the copy of the sorted pairs to
  \<open>mem2\<close> and back to the page, \<open>kv_add_buf\<close> for \<open>KeyValue::add(int, char *)\<close>.  A
  completed KeyValue has a page; without one the source reads \<open>spools\<close> and \<open>nspool\<close>
  unset, which is the last error below.
\<close>

fun add_pages :: "(KeyValue \<Rightarrow> kvrec list \<Rightarrow> error + KeyValue) \<Rightarrow> KeyValue \<Rightarrow> spool \<Rightarrow> error + KeyValue" where
  "add_pages kv_add_buf kv [] = Inr kv"
| "add_pages kv_add_buf kv (p # ps) =
     (case kv_add_buf kv p of Inl e \<Rightarrow> Inl e | Inr kv1 \<Rightarrow> add_pages kv_add_buf kv1 ps)"

definition fresh_kv :: "MapReduce \<Rightarrow> KeyValue" where
  "fresh_kv mr = KeyValue_new (ram mr) (disk_ok mr) (memavail mr) (memquarter mr)
                              (mr_kalign mr) (mr_valign mr)"

definition sort_kv ::
  "qsort \<Rightarrow> (kvrec list \<Rightarrow> spool) \<Rightarrow> (KeyValue \<Rightarrow> kvrec list \<Rightarrow> KeyValue) \<Rightarrow>
   (KeyValue \<Rightarrow> kvrec list \<Rightarrow> error + KeyValue) \<Rightarrow> compare \<Rightarrow> int \<Rightarrow> MapReduce \<Rightarrow> KeyValue \<Rightarrow>
   error + MapReduce" where
  "sort_kv qs paginate page_store kv_add_buf cmp flag mr kv =
     (case iterate kv of
        Inl e \<Rightarrow> Inl e
      | Inr (kv1, found) \<Rightarrow>
          let pgs = map (map snd) found
          in if length pgs = 1 then
               Inr (mr\<lparr>mr_kv := Some (page_store kv1 (hd (sort_pages qs paginate cmp flag pgs)))\<rparr>)
             else if length pgs > 1 then
               (case add_pages kv_add_buf (fresh_kv mr) (sort_pages qs paginate cmp flag pgs) of
                  Inl e \<Rightarrow> Inl e
                | Inr kv2 \<Rightarrow>
                    (case complete kv2 of
                       Inl e \<Rightarrow> Inl e
                     | Inr kv3 \<Rightarrow> Inr ((memswap mr)\<lparr>mr_kv := Some kv3\<rparr>)))
             else Inl (ErrorOne ''sort_kv of a KeyValue without a page''))"

subsection \<open>\<open>sort_keys\<close>, \<open>sort_values\<close> and \<open>sort_multivalues\<close>\<close>

definition sort_keys_rank ::
  "qsort \<Rightarrow> (kvrec list \<Rightarrow> spool) \<Rightarrow> (KeyValue \<Rightarrow> kvrec list \<Rightarrow> KeyValue) \<Rightarrow>
   (KeyValue \<Rightarrow> kvrec list \<Rightarrow> error + KeyValue) \<Rightarrow> compare \<Rightarrow> MapReduce \<Rightarrow> error + MapReduce" where
  "sort_keys_rank qs paginate page_store kv_add_buf appcompare mr =
     (case mr_kv mr of
        None \<Rightarrow> Inl (ErrorAll ''Cannot sort_keys without KeyValue'')
      | Some kv \<Rightarrow>
          (case sort_kv qs paginate page_store kv_add_buf appcompare 0 mr kv of
             Inl e \<Rightarrow> Inl e
           | Inr mr1 \<Rightarrow> stats ''Sort_keys'' 0 (verbosity mr1) mr1))"

definition sort_keys ::
  "qsort \<Rightarrow> (kvrec list \<Rightarrow> spool) \<Rightarrow> (KeyValue \<Rightarrow> kvrec list \<Rightarrow> KeyValue) \<Rightarrow>
   (KeyValue \<Rightarrow> kvrec list \<Rightarrow> error + KeyValue) \<Rightarrow> compare \<Rightarrow> group \<Rightarrow>
   error + (MapReduce \<times> int) list" where
  "sort_keys qs paginate page_store kv_add_buf appcompare =
     spmd (sort_keys_rank qs paginate page_store kv_add_buf appcompare) kv_count"

definition sort_values_rank ::
  "qsort \<Rightarrow> (kvrec list \<Rightarrow> spool) \<Rightarrow> (KeyValue \<Rightarrow> kvrec list \<Rightarrow> KeyValue) \<Rightarrow>
   (KeyValue \<Rightarrow> kvrec list \<Rightarrow> error + KeyValue) \<Rightarrow> compare \<Rightarrow> MapReduce \<Rightarrow> error + MapReduce" where
  "sort_values_rank qs paginate page_store kv_add_buf appcompare mr =
     (case mr_kv mr of
        None \<Rightarrow> Inl (ErrorAll ''Cannot sort_values without KeyValue'')
      | Some kv \<Rightarrow>
          (case sort_kv qs paginate page_store kv_add_buf appcompare 1 mr kv of
             Inl e \<Rightarrow> Inl e
           | Inr mr1 \<Rightarrow> stats ''Sort_values'' 0 (verbosity mr1) mr1))"

definition sort_values ::
  "qsort \<Rightarrow> (kvrec list \<Rightarrow> spool) \<Rightarrow> (KeyValue \<Rightarrow> kvrec list \<Rightarrow> KeyValue) \<Rightarrow>
   (KeyValue \<Rightarrow> kvrec list \<Rightarrow> error + KeyValue) \<Rightarrow> compare \<Rightarrow> group \<Rightarrow>
   error + (MapReduce \<times> int) list" where
  "sort_values qs paginate page_store kv_add_buf appcompare =
     spmd (sort_values_rank qs paginate page_store kv_add_buf appcompare) kv_count"

text \<open>
  \<open>sort_multivalues\<close>.  The loop over the records of a page in memory: the result is the
  error raised, if any, and the page as it is in memory then.  The parameter \<open>mv_sort\<close>
  stands for lines 1581 to 1609, which sort one multivalue in place (\<open>qsort\<close> on the
  array \<open>order\<close>, which no statement fills).
\<close>

fun smv_keys ::
  "(byte list list \<Rightarrow> byte list list) \<Rightarrow> kmvrec list \<Rightarrow> kmvrec list \<Rightarrow> error option \<times> kmvrec list" where
  "smv_keys mv_sort before [] = (None, before)"
| "smv_keys mv_sort before ((key, nvalues, vals) # rs) =
     (if nvalues < 0
      then (Some (ErrorOne ''Cannot yet sort multivalues for a multiple block KeyMultiValue''),
            before @ (key, nvalues, vals) # rs)
      else smv_keys mv_sort (before @ [(key, nvalues, mv_sort vals)]) rs)"

text \<open>
  The loop over the pages: \<open>request_page\<close>, the loop above, \<open>overwrite_page\<close>.  The result
  is the error raised, if any, and the pages as they are stored then.
\<close>

fun smv_pages ::
  "(byte list list \<Rightarrow> byte list list) \<Rightarrow> kmvrec list list \<Rightarrow> kmvrec list list \<Rightarrow>
   error option \<times> kmvrec list list" where
  "smv_pages mv_sort before [] = (None, before)"
| "smv_pages mv_sort before (p # ps) =
     (case smv_keys mv_sort [] p of
        (Some e, p1) \<Rightarrow> (Some e, before @ p # ps)
      | (None, p1) \<Rightarrow> smv_pages mv_sort (before @ [p1]) ps)"

definition sort_multivalues_rank ::
  "(byte list list \<Rightarrow> byte list list) \<Rightarrow> MapReduce \<Rightarrow> error + MapReduce" where
  "sort_multivalues_rank mv_sort mr =
     (case mr_kmv mr of
        None \<Rightarrow> Inl (ErrorAll ''Cannot sort_multivalues without KeyMultiValue'')
      | Some k \<Rightarrow>
          (case smv_pages mv_sort [] (kmv_pages k) of
             (Some e, pgs) \<Rightarrow> Inl e
           | (None, pgs) \<Rightarrow>
               stats ''Sort_multivalues'' 0 (verbosity mr)
                     (mr\<lparr>mr_kmv := Some (k\<lparr>kmv_pages := pgs\<rparr>)\<rparr>)))"

definition sort_multivalues ::
  "(byte list list \<Rightarrow> byte list list) \<Rightarrow> group \<Rightarrow> error + (MapReduce \<times> int) list" where
  "sort_multivalues mv_sort = spmd (sort_multivalues_rank mv_sort) kmv_count"

subsection \<open>\<open>reduce\<close> and \<open>compress\<close>\<close>

text \<open>
  The user's callback gets the record, the pages \<open>multivalue_block\<close> can reach (none
  unless the record is the header of a block-split multivalue) and the new KeyValue.
  The loop over the records of a page gives the KeyValue and by how much \<open>ipage\<close> was
  advanced; \<open>later\<close> are the pages after the one in memory.
\<close>

type_synonym appreduce = "kmvrec \<Rightarrow> kmvrec list list \<Rightarrow> KeyValue \<Rightarrow> error + KeyValue"

fun reduce_keys ::
  "appreduce \<Rightarrow> kmvrec list list \<Rightarrow> nat \<Rightarrow> kmvrec list \<Rightarrow> KeyValue \<Rightarrow> error + (KeyValue \<times> nat)" where
  "reduce_keys app later skip [] kv = Inr (kv, skip)"
| "reduce_keys app later skip ((key, nvalues, vals) # rs) kv =
     (if nvalues > 0 then
        (case app (key, nvalues, vals) [] kv of
           Inl e \<Rightarrow> Inl e
         | Inr kv1 \<Rightarrow> reduce_keys app later skip rs kv1)
      else
        let nblock_kmv = nat (- nvalues)
        in (case app (key, nvalues, vals) (take nblock_kmv (drop skip later)) kv of
              Inl e \<Rightarrow> Inl e
            | Inr kv1 \<Rightarrow> reduce_keys app later (skip + nblock_kmv) rs kv1))"

fun reduce_pages :: "appreduce \<Rightarrow> nat \<Rightarrow> kmvrec list list \<Rightarrow> KeyValue \<Rightarrow> error + KeyValue" where
  "reduce_pages app skip [] kv = Inr kv"
| "reduce_pages app skip (p # ps) kv =
     (if skip > 0 then reduce_pages app (skip - 1) ps kv
      else
        (case reduce_keys app ps 0 p kv of
           Inl e \<Rightarrow> Inl e
         | Inr (kv1, skip1) \<Rightarrow> reduce_pages app skip1 ps kv1))"

definition reduce_rank :: "appreduce \<Rightarrow> MapReduce \<Rightarrow> error + MapReduce" where
  "reduce_rank app mr =
     (case mr_kmv mr of
        None \<Rightarrow> Inl (ErrorAll ''Cannot reduce without KeyMultiValue'')
      | Some k \<Rightarrow>
          (case reduce_pages app 0 (kmv_pages k) (fresh_kv mr) of
             Inl e \<Rightarrow> Inl e
           | Inr kv1 \<Rightarrow>
               (case complete kv1 of
                  Inl e \<Rightarrow> Inl e
                | Inr kv2 \<Rightarrow> stats ''Reduce'' 0 (verbosity mr)
                               ((memswap mr)\<lparr>mr_kv := Some kv2, mr_kmv := None\<rparr>))))"

definition reduce :: "appreduce \<Rightarrow> group \<Rightarrow> error + (MapReduce \<times> int) list" where
  "reduce app = spmd (reduce_rank app) kv_count"

definition compress_rank ::
  "(MapReduce \<Rightarrow> KeyValue \<Rightarrow> error + KeyMultiValue) \<Rightarrow> appreduce \<Rightarrow> MapReduce \<Rightarrow>
   error + MapReduce" where
  "compress_rank kmv_convert app mr =
     (case mr_kv mr of
        None \<Rightarrow> Inl (ErrorAll ''Cannot compress without KeyValue'')
      | Some kv \<Rightarrow>
          (case kmv_convert mr kv of
             Inl e \<Rightarrow> Inl e
           | Inr k \<Rightarrow>
               let mr1 = memswap mr
               in (case reduce_pages app 0 (kmv_pages k) (fresh_kv mr1) of
                     Inl e \<Rightarrow> Inl e
                   | Inr kv1 \<Rightarrow>
                       (case complete kv1 of
                          Inl e \<Rightarrow> Inl e
                        | Inr kv2 \<Rightarrow> stats ''Compress'' 0 (verbosity mr)
                                       ((memswap mr1)\<lparr>mr_kv := Some kv2, mr_kmv := None\<rparr>)))))"

definition compress ::
  "(MapReduce \<Rightarrow> KeyValue \<Rightarrow> error + KeyMultiValue) \<Rightarrow> appreduce \<Rightarrow> group \<Rightarrow>
   error + (MapReduce \<times> int) list" where
  "compress kmv_convert app = spmd (compress_rank kmv_convert app) kv_count"

subsection \<open>\<open>map\<close>\<close>

text \<open>
  The tasks of a rank, in the order it runs them.  Chunks: \<open>nmap64\<close>, the products and
  the quotients are \<open>uint64_t\<close>, \<open>lo\<close> and \<open>hi\<close> are \<open>int\<close>.
\<close>

definition chunk_bound :: "int \<Rightarrow> int \<Rightarrow> int \<Rightarrow> int" where
  "chunk_bound r nmap np =
     to_int32 (((r mod 2 ^ 64) * (nmap mod 2 ^ 64)) mod 2 ^ 64 div (np mod 2 ^ 64))"

definition chunk_tasks :: "int \<Rightarrow> int \<Rightarrow> int \<Rightarrow> int list" where
  "chunk_tasks r nmap np =
     (let lo = chunk_bound r nmap np; hi = chunk_bound (to_int32 (r + 1)) nmap np
      in map (\<lambda>k. lo + int k) [0 ..< nat (hi - lo)])"

text \<open>
  Stride: \<open>for (int itask = me; itask < nmap; itask += nprocs)\<close>.  \<open>itask\<close> is taken
  without wrap-around (the sum fits an \<open>int\<close> when \<open>nmap + nprocs\<close> does; beyond that the
  source is undefined), and a group has at least one rank.
\<close>

function stride_tasks :: "int \<Rightarrow> int \<Rightarrow> int \<Rightarrow> int list" where
  "stride_tasks itask nmap np =
     (if itask < nmap \<and> 0 < np then itask # stride_tasks (itask + np) nmap np else [])"
  by pat_completeness auto
termination
  by (relation "measure (\<lambda>(itask, nmap, np). nat (nmap - itask))") auto

declare stride_tasks.simps [simp del]

text \<open>
  The tasks of a rank.  With \<open>mapstyle\<close> 2 rank 0 hands the tasks out as the others ask;
  \<open>handed r\<close> are the tasks rank \<open>r\<close> receives.
\<close>

definition map_tasks :: "(nat \<Rightarrow> int list) \<Rightarrow> int \<Rightarrow> MapReduce \<Rightarrow> error + int list" where
  "map_tasks handed nmap mr =
     (if nprocs mr = 1 then Inr (map int [0 ..< nat nmap])
      else if mapstyle mr = 0 then Inr (chunk_tasks (int (me mr)) nmap (int (nprocs mr)))
      else if mapstyle mr = 1 then Inr (stride_tasks (int (me mr)) nmap (int (nprocs mr)))
      else if mapstyle mr = 2 then Inr (if me mr = 0 then [] else handed (me mr))
      else Inl (ErrorAll ''Invalid mapstyle setting''))"

fun run_tasks :: "(int \<Rightarrow> KeyValue \<Rightarrow> error + KeyValue) \<Rightarrow> int list \<Rightarrow> KeyValue \<Rightarrow> error + KeyValue" where
  "run_tasks appmap [] kv = Inr kv"
| "run_tasks appmap (itask # rest) kv =
     (case appmap itask kv of Inl e \<Rightarrow> Inl e | Inr kv1 \<Rightarrow> run_tasks appmap rest kv1)"

text \<open>\<open>map(int nmap, appmap, appptr, addflag)\<close>.\<close>

definition map_rank ::
  "(nat \<Rightarrow> int list) \<Rightarrow> int \<Rightarrow> (int \<Rightarrow> KeyValue \<Rightarrow> error + KeyValue) \<Rightarrow> int \<Rightarrow> MapReduce \<Rightarrow>
   error + MapReduce" where
  "map_rank handed nmap appmap addflag mr =
     (case (if allocated mr then Inr mr else allocate mr) of
        Inl e \<Rightarrow> Inl e
      | Inr mr1 \<Rightarrow>
          let mr2 = mr1\<lparr>mr_kmv := None\<rparr>
          in (case (if addflag = 0 then Inr (memswap mr2, fresh_kv mr2)
                    else (case mr_kv mr2 of
                            None \<Rightarrow> Inr (memswap mr2, fresh_kv mr2)
                          | Some kv \<Rightarrow>
                              (case append kv of
                                 Inl e \<Rightarrow> Inl e
                               | Inr kv1 \<Rightarrow> Inr (mr2, kv1)))) of
                Inl e \<Rightarrow> Inl e
              | Inr (mr3, kv0) \<Rightarrow>
                  (case map_tasks handed nmap mr3 of
                     Inl e \<Rightarrow> Inl e
                   | Inr tasks \<Rightarrow>
                       (case run_tasks appmap tasks kv0 of
                          Inl e \<Rightarrow> Inl e
                        | Inr kv1 \<Rightarrow>
                            (case complete kv1 of
                               Inl e \<Rightarrow> Inl e
                             | Inr kv2 \<Rightarrow> stats ''Map'' 0 (verbosity mr3)
                                            (mr3\<lparr>mr_kv := Some kv2\<rparr>))))))"

definition map_mr ::
  "(nat \<Rightarrow> int list) \<Rightarrow> int \<Rightarrow> (int \<Rightarrow> KeyValue \<Rightarrow> error + KeyValue) \<Rightarrow> int \<Rightarrow> group \<Rightarrow>
   error + (MapReduce \<times> int) list" where
  "map_mr handed nmap appmap addflag = spmd (map_rank handed nmap appmap addflag) kv_count"

text \<open>A group of \<open>n\<close> ranks: rank \<open>r\<close> at index \<open>r\<close>, each with \<open>nprocs = n\<close>.\<close>

definition is_group :: "group \<Rightarrow> bool" where
  "is_group w = (map me w = [0 ..< length w] \<and> list_all (\<lambda>mr. nprocs mr = length w) w)"

section \<open>Notions used to state and prove the properties of KeyValue\<close>

text \<open>
  \<open>enc m ka va ta p rs e\<close>: memory \<open>m\<close> holds, from address \<open>p\<close> up to address \<open>e\<close>, the
  pairs \<open>rs\<close> in the layout of \<open>KeyValue::add\<close>.
\<close>

type_synonym kvpair = "byte list \<times> byte list"

definition kptr_of :: "int \<Rightarrow> nat \<Rightarrow> nat" where
  "kptr_of ka p = ROUNDUP (p + twolenbytes) ka"

definition vptr_of :: "int \<Rightarrow> int \<Rightarrow> nat \<Rightarrow> nat \<Rightarrow> nat" where
  "vptr_of ka va p lk = ROUNDUP (kptr_of ka p + lk) va"

definition nptr_of :: "int \<Rightarrow> int \<Rightarrow> int \<Rightarrow> nat \<Rightarrow> nat \<Rightarrow> nat \<Rightarrow> nat" where
  "nptr_of ka va ta p lk lv = ROUNDUP (vptr_of ka va p lk + lv) ta"

fun enc :: "memory \<Rightarrow> int \<Rightarrow> int \<Rightarrow> int \<Rightarrow> nat \<Rightarrow> kvpair list \<Rightarrow> nat \<Rightarrow> bool" where
  "enc m ka va ta p [] e = (e = p)"
| "enc m ka va ta p (r # rs) e =
     (load_int m p = int (length (fst r)) \<and>
      load_int m (p + 4) = int (length (snd r)) \<and>
      load_bytes m (kptr_of ka p) (length (fst r)) = fst r \<and>
      load_bytes m (vptr_of ka va p (length (fst r))) (length (snd r)) = snd r \<and>
      enc m ka va ta (nptr_of ka va ta p (length (fst r)) (length (snd r))) rs e)"

text \<open>The three masks of an object are those of powers of two.\<close>

definition masks :: "KeyValue \<Rightarrow> nat \<Rightarrow> nat \<Rightarrow> nat \<Rightarrow> bool" where
  "masks kv i j l =
     (kalignm1 kv = 2 ^ i - 1 \<and> valignm1 kv = 2 ^ j - 1 \<and> talignm1 kv = 2 ^ l - 1)"

text \<open>What the spill file holds for a page, seen at the addresses of the page.\<close>

definition file_view :: "KeyValue \<Rightarrow> nat \<Rightarrow> memory" where
  "file_view kv off = (\<lambda>a. fdata kv (off + (a - page kv)))"

definition keys_size :: "kvpair list \<Rightarrow> nat" where
  "keys_size rs = sum_list (map (\<lambda>r. length (fst r)) rs)"

definition values_size :: "kvpair list \<Rightarrow> nat" where
  "values_size rs = sum_list (map (\<lambda>r. length (snd r)) rs)"

text \<open>Page descriptor \<open>i\<close> describes the pairs \<open>rs\<close>; the file holds them for page \<open>i\<close>.\<close>

definition page_desc :: "KeyValue \<Rightarrow> nat \<Rightarrow> kvpair list \<Rightarrow> bool" where
  "page_desc kv i rs =
     (pg_nkey (pages kv i) = length rs \<and>
      pg_keysize (pages kv i) = keys_size rs \<and>
      pg_valuesize (pages kv i) = values_size rs \<and>
      pg_exactsize (pages kv i) = length rs * twolenbytes + keys_size rs + values_size rs \<and>
      pg_filesize (pages kv i) = roundup (pg_alignsize (pages kv i)) ALIGNFILE \<and>
      pg_fileoffset (pages kv i) = (\<Sum>j < i. pg_filesize (pages kv j)))"

definition page_stored :: "KeyValue \<Rightarrow> nat \<Rightarrow> kvpair list \<Rightarrow> bool" where
  "page_stored kv i rs =
     (enc (file_view kv (pg_fileoffset (pages kv i))) (kalignm1 kv) (valignm1 kv) (talignm1 kv)
          (page kv) rs (page kv + pg_alignsize (pages kv i)) \<and>
      pg_fileoffset (pages kv i) + pg_filesize (pages kv i) \<le> filelen kv)"

text \<open>
  The state of an object that is being filled: \<open>done\<close> are the pairs of the pages
  already flushed, \<open>cur\<close> those of the page in memory.
\<close>

definition building :: "KeyValue \<Rightarrow> nat \<Rightarrow> nat \<Rightarrow> nat \<Rightarrow> kvpair list list \<Rightarrow> kvpair list \<Rightarrow> bool" where
  "building kv i j l done cur =
     (masks kv i j l \<and> npage kv = length done \<and>
      nkey kv = length cur \<and> keysize kv = keys_size cur \<and> valuesize kv = values_size cur \<and>
      enc (mem kv) (kalignm1 kv) (valignm1 kv) (talignm1 kv) (page kv) cur
          (page kv + alignsize kv) \<and>
      (\<forall>n < length done. page_desc kv n (done ! n) \<and> page_stored kv n (done ! n)) \<and>
      fileflag kv = (done \<noteq> []) \<and>
      fp kv = (if done = [] then None else Some WB) \<and>
      (done \<noteq> [] \<longrightarrow> fopen_ok kv))"

text \<open>The state after \<open>complete\<close>, and during an iteration: \<open>pgs\<close> are the pairs of each page.\<close>

definition completed :: "KeyValue \<Rightarrow> nat \<Rightarrow> nat \<Rightarrow> nat \<Rightarrow> kvpair list list \<Rightarrow> bool" where
  "completed kv i j l pgs =
     (masks kv i j l \<and> npage kv = length pgs \<and>
      (\<forall>n < length pgs. page_desc kv n (pgs ! n)) \<and>
      (if fileflag kv
       then (\<forall>n < length pgs. page_stored kv n (pgs ! n)) \<and> fopen_ok kv \<and>
            (fp kv = None \<or> fp kv = Some RB)
       else length pgs = 1 \<and>
            enc (mem kv) (kalignm1 kv) (valignm1 kv) (talignm1 kv) (page kv) (pgs ! 0)
                (page kv + pg_alignsize (pages kv 0))))"

text \<open>
  A pair whose size fits an \<open>int\<close> whatever the padding: the bound under which the
  truncation in \<open>int kvbytes = nptr - iptr\<close> changes nothing.
\<close>

definition fits_int :: "nat \<Rightarrow> nat \<Rightarrow> nat \<Rightarrow> kvpair \<Rightarrow> bool" where
  "fits_int i j l r =
     (twolenbytes + 2 ^ i + length (fst r) + 2 ^ j + length (snd r) + 2 ^ l \<le> 2 ^ 31)"

text \<open>What one successful store of a pair leaves in memory.\<close>

definition put :: "memory \<Rightarrow> int \<Rightarrow> int \<Rightarrow> nat \<Rightarrow> kvpair \<Rightarrow> memory" where
  "put m ka va p r =
     store_bytes (store_bytes (store_int (store_int m p (int (length (fst r))))
                                         (p + 4) (int (length (snd r))))
                              (kptr_of ka p) (fst r))
                 (vptr_of ka va p (length (fst r))) (snd r)"

text \<open>The bytes a pair takes when it is stored at the end of the in-memory page.\<close>

definition kvsize :: "KeyValue \<Rightarrow> kvpair \<Rightarrow> nat" where
  "kvsize kv r =
     nptr_of (kalignm1 kv) (valignm1 kv) (talignm1 kv) (page kv + alignsize kv)
             (length (fst r)) (length (snd r)) - (page kv + alignsize kv)"

text \<open>Three pairs, for the concrete instances below.\<close>

definition example_pairs :: "kvpair list" where
  "example_pairs = [([1, 2, 3], [4]), ([5], [6, 7]), ([], [8, 9, 10, 11, 12])]"

text \<open>
  An entry met by the walk is aligned when the pair starts on a multiple of \<open>ta\<close>, its
  key on a multiple of \<open>ka\<close> and its value on a multiple of \<open>va\<close>.
\<close>

definition entry_aligned :: "nat \<Rightarrow> nat \<Rightarrow> nat \<Rightarrow> entry \<Rightarrow> bool" where
  "entry_aligned ka va ta e =
     (case e of (start, kptr, keybytes, vptr, valuebytes) \<Rightarrow>
        ta dvd start \<and> ka dvd kptr \<and> va dvd vptr)"

text \<open>The settings of an object that no method changes.\<close>

definition same_frame :: "KeyValue \<Rightarrow> KeyValue \<Rightarrow> bool" where
  "same_frame kv kv' =
     (page kv' = page kv \<and> pagesize kv' = pagesize kv \<and> kalign kv' = kalign kv \<and>
      valign kv' = valign kv \<and> talign kv' = talign kv \<and> fopen_ok kv' = fopen_ok kv)"

text \<open>
  The packed size of a pair in the layout of the data model: two \<open>int\<close> lengths, padding
  to \<open>ka\<close>, the key, padding to \<open>va\<close>, the value, padding to \<open>ta\<close>.
\<close>

definition packed_size :: "nat \<Rightarrow> nat \<Rightarrow> nat \<Rightarrow> nat \<Rightarrow> nat \<Rightarrow> nat" where
  "packed_size ka va ta lk lv = roundup (roundup (roundup twolenbytes ka + lk) va + lv) ta"

subsection \<open>Vocabulary for the statements about the driver\<close>

text \<open>
  What an operator returned, \<open>x\<close>, is the list of each rank's state and return value.
  \<open>total_count cnt x\<close> is the number of records the group holds then; \<open>returns_total\<close>
  says that every rank was returned that number as an \<open>int\<close>: reduced to 32 bits, and
  the number itself when it is below \<open>2 ^ 31\<close>.
\<close>

definition total_count :: "(MapReduce \<Rightarrow> int) \<Rightarrow> (MapReduce \<times> int) list \<Rightarrow> int" where
  "total_count cnt x = sum_list (map (\<lambda>p. cnt (fst p)) x)"

definition returns_total :: "(MapReduce \<Rightarrow> int) \<Rightarrow> (MapReduce \<times> int) list \<Rightarrow> bool" where
  "returns_total cnt x =
     list_all (\<lambda>p. snd p = to_int32 (total_count cnt x) \<and>
                    (total_count cnt x < 2 ^ 31 \<longrightarrow> snd p = total_count cnt x)) x"

definition holds_kv :: "(MapReduce \<times> int) list \<Rightarrow> bool" where
  "holds_kv x = list_all (\<lambda>p. mr_kv (fst p) \<noteq> None) x"

definition holds_kmv :: "(MapReduce \<times> int) list \<Rightarrow> bool" where
  "holds_kmv x = list_all (\<lambda>p. mr_kmv (fst p) \<noteq> None) x"

text \<open>A group of two ranks, as two calls of the constructor leave them.\<close>

definition two_ranks :: group where
  "two_ranks = [MapReduce_new 0 0 2 0, MapReduce_new 0 1 2 0]"







definition silent :: "MapReduce \<Rightarrow> MapReduce" where
  "silent mr = mr\<lparr>verbosity := 0, timer := 0, printout := []\<rparr>"


subsection \<open>Vocabulary for the statements about sorting\<close>

text \<open>
  \<open>precedes cmp flag a b\<close>: entry \<open>a\<close> may come before entry \<open>b\<close>, that is, \<open>compare\<close> on
  their keys (or values) is not positive.  \<open>ordered\<close>: a list of entries in which every
  entry may come before all later ones.
\<close>

definition precedes :: "compare \<Rightarrow> int \<Rightarrow> kvrec \<Rightarrow> kvrec \<Rightarrow> bool" where
  "precedes cmp flag a b = (cmp (extract_str flag a) (extract_str flag b) \<le> 0)"

definition ordered :: "compare \<Rightarrow> int \<Rightarrow> kvrec list \<Rightarrow> bool" where
  "ordered cmp flag es = sorted_wrt (precedes cmp flag) es"



















section \<open>Arithmetic of the byte layout\<close>

lemma and_not_mask_int: "(x::int) AND NOT (mask k) = (x div 2 ^ k) * 2 ^ k"
proof -
  have "x AND NOT (mask k) = push_bit k (drop_bit k x)"
    by (rule bit_eqI) (auto simp: bit_and_iff bit_not_iff bit_mask_iff bit_push_bit_iff bit_drop_bit_eq)
  then show ?thesis
    by (simp add: push_bit_eq_mult drop_bit_eq_div)
qed

lemma div_aux: 
  fixes K q r :: nat
  assumes "r < K"
  shows "(q * K + r) div K = q"
  using assms by simp

lemma roundup_alt: 
  assumes K: "0 < K"
  shows "roundup n K = (n + (K - 1)) div K * K"
proof -
  define r where "r = n mod K"
  define q where "q = n div K"
  have n: "n = q * K + r" by (simp add: q_def r_def)
  have rK: "r < K" using K by (simp add: r_def)
  show ?thesis
  proof (cases "r = 0")
    case True
    have "n + (K - 1) = q * K + (K - 1)" using n True by simp
    moreover have "(q * K + (K - 1)) div K = q"
      by (rule div_aux) (use K in simp)
    ultimately have "(n + (K - 1)) div K * K = q * K" by (simp only:)
    moreover have "n mod K = 0" using True r_def by simp
    then have "roundup n K = n" by (simp add: roundup_def)
    moreover have "n = q * K" using n True by simp
    ultimately show ?thesis by (simp only:)
  next
    case False
    have "n + (K - 1) = (q + 1) * K + (r - 1)" using False rK n by (simp add: algebra_simps)
    moreover have "((q + 1) * K + (r - 1)) div K = q + 1"
      by (rule div_aux) (use rK in simp)
    ultimately have "(n + (K - 1)) div K = q + 1" by (simp only:)
    moreover have "n mod K \<noteq> 0" using False r_def by simp
    then have "roundup n K = (n div K + 1) * K" by (simp add: roundup_def)
    ultimately show ?thesis by (simp only: q_def)
  qed
qed

lemma ROUNDUP_roundup: "ROUNDUP A (2 ^ k - 1) = roundup A (2 ^ k)"
proof -
  have "int ((2::nat) ^ k - 1) = int (2 ^ k) - int 1"
    by (rule of_nat_diff) simp
  then have e1: "int ((2::nat) ^ k - 1) = 2 ^ k - 1"
    by simp
  have e: "int A + (2 ^ k - 1) = int (A + (2 ^ k - 1))"
    by (simp only: of_nat_add e1)
  have "int (A + (2 ^ k - 1)) AND NOT (mask k) = int (A + (2 ^ k - 1)) div 2 ^ k * 2 ^ k"
    by (rule and_not_mask_int)
  also have "\<dots> = int ((A + (2 ^ k - 1)) div 2 ^ k * 2 ^ k)"
    by (simp only: zdiv_int of_nat_mult of_nat_power of_nat_numeral)
  finally have "nat (int (A + (2 ^ k - 1)) AND NOT (mask k)) = (A + (2 ^ k - 1)) div 2 ^ k * 2 ^ k"
    by (simp only: nat_int)
  moreover have "roundup A (2 ^ k) = (A + (2 ^ k - 1)) div 2 ^ k * 2 ^ k"
    by (rule roundup_alt) simp
  ultimately show ?thesis
    unfolding ROUNDUP_def e by (simp only: mask_eq_exp_minus_1)
qed

lemma roundup_ge: "0 < K \<Longrightarrow> n \<le> roundup n K"
proof -
  assume K: "0 < K"
  have "n div K * K + n mod K = n" by (rule div_mult_mod_eq)
  moreover have "n mod K < K" using K by simp
  ultimately have "n \<le> n div K * K + K" by linarith
  then show ?thesis by (simp add: roundup_def)
qed

lemma roundup_lt: "0 < K \<Longrightarrow> roundup n K < n + K"
proof -
  assume K: "0 < K"
  have "n div K * K + n mod K = n" by (rule div_mult_mod_eq)
  moreover have "n mod K \<noteq> 0 \<Longrightarrow> 0 < n mod K" by simp
  ultimately have "n mod K \<noteq> 0 \<Longrightarrow> n div K * K + K < n + K" by linarith
  then show ?thesis using K by (simp add: roundup_def)
qed

lemma roundup_dvd: "K dvd roundup n K"
  by (auto simp: roundup_def)

lemma roundup_id: "K dvd n \<Longrightarrow> roundup n K = n"
  by (auto simp: roundup_def)

lemma to_int32_id: "- (2 ^ 31) \<le> n \<Longrightarrow> n < 2 ^ 31 \<Longrightarrow> to_int32 n = n"
  by (simp add: to_int32_def sint_sbintrunc' signed_take_bit_int_eq_self)

lemma to_int32_mod: "to_int32 (n mod 4294967296) = to_int32 n"
  by (simp add: to_int32_def sint_sbintrunc' signed_take_bit_eq_take_bit_shift take_bit_eq_mod mod_simps)

lemma uint_byte: "uint (word_of_int n :: 8 word) = n mod 256"
  by (simp add: uint_word_of_int)

lemma bytes_lin:
  fixes M :: int
  shows "M = 256 * Y1 + X0 \<Longrightarrow> Y1 = 256 * Y2 + X1 \<Longrightarrow> Y2 = 256 * X3 + X2 \<Longrightarrow>
    X0 + 256 * X1 + 65536 * X2 + 16777216 * X3 = M"
  by simp

lemma bytes_sum: "(n::int) mod 256 + 256 * (n div 256 mod 256) + 65536 * (n div 65536 mod 256) + 16777216 * (n div 16777216 mod 256) = n mod 4294967296"
proof -
  have "n mod (256 * 16777216) = 256 * (n div 256 mod 16777216) + n mod 256"
    by (rule zmod_zmult2_eq) simp
  then have a: "n mod 4294967296 = 256 * (n div 256 mod 16777216) + n mod 256"
    by (simp only: mult_numeral_left_semiring_numeral numeral_times_numeral arith_simps)
  have "(n div 256) mod (256 * 65536) = 256 * (n div 256 div 256 mod 65536) + n div 256 mod 256"
    by (rule zmod_zmult2_eq) simp
  moreover have "n div 256 div 256 = n div (256 * 256)"
    by (rule zdiv_zmult2_eq [symmetric]) simp
  ultimately have b: "(n div 256) mod 16777216 = 256 * (n div 65536 mod 65536) + n div 256 mod 256"
    by (simp only: numeral_times_numeral arith_simps)
  have "(n div 65536) mod (256 * 256) = 256 * (n div 65536 div 256 mod 256) + n div 65536 mod 256"
    by (rule zmod_zmult2_eq) simp
  moreover have "n div 65536 div 256 = n div (65536 * 256)"
    by (rule zdiv_zmult2_eq [symmetric]) simp
  ultimately have c: "(n div 65536) mod 65536 = 256 * (n div 16777216 mod 256) + n div 65536 mod 256"
    by (simp only: numeral_times_numeral arith_simps)
  show ?thesis by (rule bytes_lin [OF a b c])
qed

lemma load_store_int: 
  assumes "- (2 ^ 31) \<le> n" "n < 2 ^ 31"
  shows "load_int (store_int m p n) p = n"
proof -
  have "load_int (store_int m p n) p = to_int32 (n mod 256 + 256 * (n div 256 mod 256) + 65536 * (n div 65536 mod 256) + 16777216 * (n div 16777216 mod 256))"
    by (simp add: load_int_def store_int_def uint_byte)
  also have "\<dots> = to_int32 n"
    by (simp only: bytes_sum to_int32_mod)
  finally show ?thesis using assms by (simp only: to_int32_id)
qed

lemma load_store_bytes: "load_bytes (store_bytes m p bs) p (length bs) = bs"
  by (auto simp: load_bytes_def store_bytes_def intro!: nth_equalityI)

lemma ROUNDUP_le: "A \<le> ROUNDUP A (2 ^ k - 1)"
  by (simp add: ROUNDUP_roundup roundup_ge)

lemma ROUNDUP_less: "ROUNDUP A (2 ^ k - 1) < A + 2 ^ k"
  by (simp add: ROUNDUP_roundup roundup_lt)

lemma ptrs_order:
  "p + twolenbytes \<le> kptr_of (2 ^ i - 1) p \<and>
   kptr_of (2 ^ i - 1) p + lk \<le> vptr_of (2 ^ i - 1) (2 ^ j - 1) p lk \<and>
   vptr_of (2 ^ i - 1) (2 ^ j - 1) p lk + lv \<le> nptr_of (2 ^ i - 1) (2 ^ j - 1) (2 ^ l - 1) p lk lv"
  by (simp add: kptr_of_def vptr_of_def nptr_of_def ROUNDUP_le)

lemma nptr_bound:
  "nptr_of (2 ^ i - 1) (2 ^ j - 1) (2 ^ l - 1) p lk lv < p + twolenbytes + 2 ^ i + lk + 2 ^ j + lv + 2 ^ l"
proof -
  have "kptr_of (2 ^ i - 1) p < p + twolenbytes + 2 ^ i"
    by (simp add: kptr_of_def ROUNDUP_less)
  moreover have "vptr_of (2 ^ i - 1) (2 ^ j - 1) p lk < kptr_of (2 ^ i - 1) p + lk + 2 ^ j"
    by (simp add: vptr_of_def ROUNDUP_less)
  moreover have "nptr_of (2 ^ i - 1) (2 ^ j - 1) (2 ^ l - 1) p lk lv
      < vptr_of (2 ^ i - 1) (2 ^ j - 1) p lk + lv + 2 ^ l"
    by (simp add: nptr_of_def ROUNDUP_less)
  ultimately show ?thesis by linarith
qed

lemma enc_le:
  "enc m (2 ^ i - 1) (2 ^ j - 1) (2 ^ l - 1) p rs e \<Longrightarrow> p \<le> e"
proof (induction rs arbitrary: p)
  case Nil
  then show ?case by simp
next
  case (Cons r rs)
  then have "nptr_of (2 ^ i - 1) (2 ^ j - 1) (2 ^ l - 1) p (length (fst r)) (length (snd r)) \<le> e"
    by simp
  with ptrs_order [of p i "length (fst r)" j "length (snd r)" l] show ?case by linarith
qed

lemma load_int_cong: "(\<And>a. p \<le> a \<Longrightarrow> a < p + 4 \<Longrightarrow> m' a = m a) \<Longrightarrow> load_int m' p = load_int m p"
  by (simp add: load_int_def)

lemma load_bytes_cong: "(\<And>a. p \<le> a \<Longrightarrow> a < p + n \<Longrightarrow> m' a = m a) \<Longrightarrow> load_bytes m' p n = load_bytes m p n"
  by (simp add: load_bytes_def)

lemma enc_cong:
  "enc m (2 ^ i - 1) (2 ^ j - 1) (2 ^ l - 1) p rs e \<Longrightarrow> (\<And>a. p \<le> a \<Longrightarrow> a < e \<Longrightarrow> m' a = m a) \<Longrightarrow>
   enc m' (2 ^ i - 1) (2 ^ j - 1) (2 ^ l - 1) p rs e"
proof (induction rs arbitrary: p)
  case Nil
  then show ?case by simp
next
  case (Cons r rs)
  let ?n = "nptr_of (2 ^ i - 1) (2 ^ j - 1) (2 ^ l - 1) p (length (fst r)) (length (snd r))"
  from Cons.prems(1) have tl: "enc m (2 ^ i - 1) (2 ^ j - 1) (2 ^ l - 1) ?n rs e"
    by simp
  then have ne: "?n \<le> e" by (rule enc_le)
  note po = ptrs_order [of p i "length (fst r)" j "length (snd r)" l]
  have "enc m' (2 ^ i - 1) (2 ^ j - 1) (2 ^ l - 1) ?n rs e"
    using tl
  proof (rule Cons.IH)
    fix a assume "?n \<le> a" "a < e"
    then show "m' a = m a" using po by (intro Cons.prems(2)) linarith+
  qed
  moreover have "load_int m' p = load_int m p"
    using po ne by (intro load_int_cong Cons.prems(2)) (simp_all add: twolenbytes_def)
  moreover have "load_int m' (p + 4) = load_int m (p + 4)"
    using po ne by (intro load_int_cong Cons.prems(2)) (simp_all add: twolenbytes_def)
  moreover have "load_bytes m' (kptr_of (2 ^ i - 1) p) (length (fst r)) = load_bytes m (kptr_of (2 ^ i - 1) p) (length (fst r))"
    using po ne by (intro load_bytes_cong Cons.prems(2)) linarith+
  moreover have "load_bytes m' (vptr_of (2 ^ i - 1) (2 ^ j - 1) p (length (fst r))) (length (snd r))
      = load_bytes m (vptr_of (2 ^ i - 1) (2 ^ j - 1) p (length (fst r))) (length (snd r))"
    using po ne by (intro load_bytes_cong Cons.prems(2)) linarith+
  ultimately show ?case using Cons.prems(1) by simp
qed

lemma enc_append:
  "enc m ka va ta p rs e \<Longrightarrow> enc m ka va ta e rs' e' \<Longrightarrow> enc m ka va ta p (rs @ rs') e'"
  by (induction rs arbitrary: p) auto

lemma walk_enc:
  "enc m ka va ta p rs e \<Longrightarrow> map (entry_kv m) (walk m ka va ta p (length rs)) = rs"
  by (induction rs arbitrary: p)
     (auto simp: entry_kv_def Let_def kptr_of_def vptr_of_def nptr_of_def nat_int_add)

lemma put_outside: "a < p \<Longrightarrow> put m (2 ^ i - 1) (2 ^ j - 1) p r a = m a"
  using ptrs_order [of p i "length (fst r)" j 0 0]
  by (simp add: put_def store_bytes_def store_int_def)

lemma enc_put:
  assumes "length (fst r) < 2 ^ 31" "length (snd r) < 2 ^ 31"
  shows "enc (put m (2 ^ i - 1) (2 ^ j - 1) p r) (2 ^ i - 1) (2 ^ j - 1) (2 ^ l - 1) p [r]
     (nptr_of (2 ^ i - 1) (2 ^ j - 1) (2 ^ l - 1) p (length (fst r)) (length (snd r)))"
proof -
  let ?k = "kptr_of (2 ^ i - 1) p" and ?v = "vptr_of (2 ^ i - 1) (2 ^ j - 1) p (length (fst r))"
  let ?m1 = "store_int m p (int (length (fst r)))"
  let ?m2 = "store_int ?m1 (p + 4) (int (length (snd r)))"
  let ?m3 = "store_bytes ?m2 ?k (fst r)"
  note po = ptrs_order [of p i "length (fst r)" j 0 0]
  have "load_int (put m (2 ^ i - 1) (2 ^ j - 1) p r) p = load_int ?m1 p"
    using po by (intro load_int_cong) (simp add: put_def store_bytes_def store_int_def twolenbytes_def)
  then have a: "load_int (put m (2 ^ i - 1) (2 ^ j - 1) p r) p = int (length (fst r))"
    using assms by (simp add: load_store_int)
  have "load_int (put m (2 ^ i - 1) (2 ^ j - 1) p r) (p + 4) = load_int ?m2 (p + 4)"
    using po by (intro load_int_cong) (simp add: put_def store_bytes_def twolenbytes_def)
  then have b: "load_int (put m (2 ^ i - 1) (2 ^ j - 1) p r) (p + 4) = int (length (snd r))"
    using assms by (simp add: load_store_int)
  have "load_bytes (put m (2 ^ i - 1) (2 ^ j - 1) p r) ?k (length (fst r)) = load_bytes ?m3 ?k (length (fst r))"
    using po by (intro load_bytes_cong) (simp add: put_def store_bytes_def)
  then have c: "load_bytes (put m (2 ^ i - 1) (2 ^ j - 1) p r) ?k (length (fst r)) = fst r"
    by (simp add: load_store_bytes)
  have d: "load_bytes (put m (2 ^ i - 1) (2 ^ j - 1) p r) ?v (length (snd r)) = snd r"
    by (simp add: put_def load_store_bytes)
  show ?thesis using a b c d by simp
qed

section \<open>The invariant of an object that is being filled\<close>

lemma add_eq:
  "add kv k v =
     (let iptr = page kv + alignsize kv;
          nptr = nptr_of (kalignm1 kv) (valignm1 kv) (talignm1 kv) iptr (length k) (length v);
          kvbytes = to_int32 (int nptr - int iptr)
      in if kvbytes < 0 then Inl (ErrorOne ''Single key/value pair exceeds int size'')
         else if int (alignsize kv) + kvbytes > int (pagesize kv) \<or> nkey kv = INTMAX then
           (if alignsize kv = 0
            then Inl (ErrorOne ''Single key/value pair exceeds page size'')
            else (case write_page (create_page kv) of
                    Inl e \<Rightarrow> Inl e
                  | Inr kv1 \<Rightarrow> add (init_page (kv1\<lparr>npage := npage kv1 + 1\<rparr>)) k v))
         else Inr (kv\<lparr>mem := put (mem kv) (kalignm1 kv) (valignm1 kv) iptr (k, v),
                      nkey := nkey kv + 1,
                      keysize := keysize kv + length k,
                      valuesize := valuesize kv + length v,
                      alignsize := alignsize kv + nat kvbytes\<rparr>))"
  by (subst add.simps) (simp add: Let_def kptr_of_def vptr_of_def nptr_of_def put_def)

lemma kvbytes_exact:
  assumes "fits_int i j l r"
  shows "to_int32 (int (nptr_of (2 ^ i - 1) (2 ^ j - 1) (2 ^ l - 1) p (length (fst r)) (length (snd r))) - int p)
     = int (nptr_of (2 ^ i - 1) (2 ^ j - 1) (2 ^ l - 1) p (length (fst r)) (length (snd r)) - p)"
    and "p \<le> nptr_of (2 ^ i - 1) (2 ^ j - 1) (2 ^ l - 1) p (length (fst r)) (length (snd r))"
proof -
  let ?n = "nptr_of (2 ^ i - 1) (2 ^ j - 1) (2 ^ l - 1) p (length (fst r)) (length (snd r))"
  show le: "p \<le> ?n"
    using ptrs_order [of p i "length (fst r)" j "length (snd r)" l] by linarith
  have "?n < p + 2 ^ 31"
    using nptr_bound [of i j l p "length (fst r)" "length (snd r)"] assms
    by (simp add: fits_int_def)
  then have "int ?n - int p < 2 ^ 31" by simp
  moreover have "0 \<le> int ?n - int p" using le by simp
  ultimately have "to_int32 (int ?n - int p) = int ?n - int p"
    by (intro to_int32_id) simp_all
  then show "to_int32 (int ?n - int p) = int (?n - p)"
    using le by (simp add: of_nat_diff)
qed

lemma fits_int_lengths: "fits_int i j l r \<Longrightarrow> length (fst r) < 2 ^ 31 \<and> length (snd r) < 2 ^ 31"
proof -
  assume a: "fits_int i j l r"
  have "(0::nat) < 2 ^ i" "(0::nat) < 2 ^ j" by simp_all
  with a show ?thesis unfolding fits_int_def twolenbytes_def by linarith
qed

lemma keys_size_append [simp]: "keys_size (xs @ ys) = keys_size xs + keys_size ys"
  by (simp add: keys_size_def)

lemma values_size_append [simp]: "values_size (xs @ ys) = values_size xs + values_size ys"
  by (simp add: values_size_def)

lemma page_desc_frame [simp]:
  "page_desc (mem_update f0 kv) = page_desc kv"
  "page_desc (nkey_update f1 kv) = page_desc kv"
  "page_desc (keysize_update f2 kv) = page_desc kv"
  "page_desc (valuesize_update f3 kv) = page_desc kv"
  "page_desc (alignsize_update f4 kv) = page_desc kv"
  "page_desc (npage_update f5 kv) = page_desc kv"
  "page_desc (fp_update f6 kv) = page_desc kv"
  "page_desc (fileflag_update f7 kv) = page_desc kv"
  "page_desc (nkv_update f8 kv) = page_desc kv"
  "page_desc (ksize_update f9 kv) = page_desc kv"
  "page_desc (vsize_update f10 kv) = page_desc kv"
  "page_desc (tsize_update f11 kv) = page_desc kv"
  "page_desc (fdata_update f12 kv) = page_desc kv"
  "page_desc (filelen_update f13 kv) = page_desc kv"
  by (simp_all add: page_desc_def fun_eq_iff)

lemma page_stored_frame [simp]:
  "page_stored (mem_update f0 kv) = page_stored kv"
  "page_stored (nkey_update f1 kv) = page_stored kv"
  "page_stored (keysize_update f2 kv) = page_stored kv"
  "page_stored (valuesize_update f3 kv) = page_stored kv"
  "page_stored (alignsize_update f4 kv) = page_stored kv"
  "page_stored (npage_update f5 kv) = page_stored kv"
  "page_stored (fp_update f6 kv) = page_stored kv"
  "page_stored (fileflag_update f7 kv) = page_stored kv"
  "page_stored (nkv_update f8 kv) = page_stored kv"
  "page_stored (ksize_update f9 kv) = page_stored kv"
  "page_stored (vsize_update f10 kv) = page_stored kv"
  "page_stored (tsize_update f11 kv) = page_stored kv"
  by (simp_all add: page_stored_def file_view_def fun_eq_iff)

lemma building_store:
  assumes b: "building kv i j l done cur" and f: "fits_int i j l r"
  defines "iptr \<equiv> page kv + alignsize kv"
  defines "nptr \<equiv> nptr_of (kalignm1 kv) (valignm1 kv) (talignm1 kv) iptr (length (fst r)) (length (snd r))"
  shows "building (kv\<lparr>mem := put (mem kv) (kalignm1 kv) (valignm1 kv) iptr r,
                      nkey := nkey kv + 1,
                      keysize := keysize kv + length (fst r),
                      valuesize := valuesize kv + length (snd r),
                      alignsize := alignsize kv + (nptr - iptr)\<rparr>) i j l done (cur @ [r])"
proof -
  from b have m: "kalignm1 kv = 2 ^ i - 1" "valignm1 kv = 2 ^ j - 1" "talignm1 kv = 2 ^ l - 1"
    by (simp_all add: building_def masks_def)
  from b have e: "enc (mem kv) (2 ^ i - 1) (2 ^ j - 1) (2 ^ l - 1) (page kv) cur iptr"
    by (simp add: building_def m iptr_def)
  have le: "iptr \<le> nptr"
    unfolding nptr_def m by (rule kvbytes_exact(2) [OF f])
  have "enc (put (mem kv) (2 ^ i - 1) (2 ^ j - 1) iptr r) (2 ^ i - 1) (2 ^ j - 1) (2 ^ l - 1) (page kv) cur iptr"
    using e by (rule enc_cong) (simp add: put_outside)
  moreover have "enc (put (mem kv) (2 ^ i - 1) (2 ^ j - 1) iptr r) (2 ^ i - 1) (2 ^ j - 1) (2 ^ l - 1) iptr [r] nptr"
    unfolding nptr_def m using fits_int_lengths [OF f] by (intro enc_put) simp_all
  ultimately have "enc (put (mem kv) (2 ^ i - 1) (2 ^ j - 1) iptr r) (2 ^ i - 1) (2 ^ j - 1) (2 ^ l - 1)
      (page kv) (cur @ [r]) nptr"
    by (rule enc_append)
  moreover have "page kv + (alignsize kv + (nptr - iptr)) = nptr"
    using le by (simp add: iptr_def)
  ultimately show ?thesis
    using b by (simp add: building_def masks_def m keys_size_def values_size_def)
qed

lemma talign_pow2:
  fixes t0 :: int
  assumes "t0 = (if (2::int) ^ i > 2 ^ j then (2::int) ^ i else 2 ^ j)"
  shows "(if t0 > 4 then t0 else 4) = 2 ^ max (max i j) 2"
proof -
  have a: "t0 = 2 ^ max i j"
    by (simp add: assms max_def)
  have b: "((4::int) < 2 ^ k) = (2 < k)" for k
    using power_strict_increasing_iff [of "2::int" 2 k] by simp
  have c: "\<not> 2 < k \<Longrightarrow> max k 2 = 2" for k :: nat
    by simp
  show ?thesis unfolding a by (simp add: b c) 
qed

lemma four_less_pow: "((4::int) < 2 ^ k) = (2 < k)"
  using power_strict_increasing_iff [of "2::int" 2 k] by simp

lemma building_new:
  "building (KeyValue_new m ok memblock memsize (2 ^ i) (2 ^ j)) i j (max (max i j) 2) [] []"
  by (auto simp: building_def masks_def KeyValue_new_def init_page_def Let_def keys_size_def
      values_size_def four_less_pow max_def)

lemma sum_filesize_le:
  fixes n k :: nat
  assumes "n < k"
  shows "(\<Sum>j<n. (f j :: nat)) + f n \<le> (\<Sum>j<k. f j)"
proof -
  have "(\<Sum>j<n. f j) + f n = (\<Sum>j<Suc n. f j)" by simp
  also have "\<dots> \<le> (\<Sum>j<k. f j)"
    using assms by (intro sum_mono2) auto
  finally show ?thesis .
qed

lemma enc_nonempty_lt:
  "enc m (2 ^ i - 1) (2 ^ j - 1) (2 ^ l - 1) p (r # rs) e \<Longrightarrow> p < e"
proof -
  assume a: "enc m (2 ^ i - 1) (2 ^ j - 1) (2 ^ l - 1) p (r # rs) e"
  then have "nptr_of (2 ^ i - 1) (2 ^ j - 1) (2 ^ l - 1) p (length (fst r)) (length (snd r)) \<le> e"
    by (auto dest: enc_le)
  with ptrs_order [of p i "length (fst r)" j "length (snd r)" l] show ?thesis
    by (simp add: twolenbytes_def)
qed

text \<open>The state after a page has been described and written, and the page emptied.\<close>

lemma building_flush:
  assumes b: "building kv i j l done cur"
    and w: "write_page (create_page kv) = Inr kv1"
  shows "building (init_page (kv1\<lparr>npage := npage kv1 + 1\<rparr>)) i j l (done @ [cur]) []"
proof -
  let ?n = "length done"
  let ?off = "\<Sum>j<?n. pg_filesize (pages kv j)"
  let ?fsz = "roundup (alignsize kv) ALIGNFILE"
  let ?kv' = "init_page (kv1\<lparr>npage := npage kv1 + 1\<rparr>)"
  from b have m: "kalignm1 kv = 2 ^ i - 1" "valignm1 kv = 2 ^ j - 1" "talignm1 kv = 2 ^ l - 1"
    and np: "npage kv = ?n"
    and old: "\<And>n. n < ?n \<Longrightarrow> page_desc kv n (done ! n) \<and> page_stored kv n (done ! n)"
    and fpv: "fp kv = (if done = [] then None else Some WB)"
    by (simp_all add: building_def masks_def)
  from b have e: "enc (mem kv) (2 ^ i - 1) (2 ^ j - 1) (2 ^ l - 1) (page kv) cur (page kv + alignsize kv)"
    by (simp add: building_def m)
  have al: "alignsize kv \<le> ?fsz"
    by (rule roundup_ge) (simp add: ALIGNFILE_def)
  have off: "(if ?n \<noteq> 0 then pg_fileoffset (pages kv (?n - 1)) + pg_filesize (pages kv (?n - 1)) else 0) = ?off"
  proof (cases "?n")
    case 0
    then show ?thesis by simp
  next
    case (Suc k)
    then have "page_desc kv k (done ! k)" using old [of k] by simp
    then have "pg_fileoffset (pages kv k) = (\<Sum>j<k. pg_filesize (pages kv j))"
      by (simp add: page_desc_def)
    then show ?thesis using Suc by simp
  qed
  have offlen: "done \<noteq> [] \<Longrightarrow> ?off \<le> filelen kv"
  proof -
    assume "done \<noteq> []"
    then obtain k where k: "?n = Suc k" by (cases "done") auto
    then have "page_desc kv k (done ! k)" "page_stored kv k (done ! k)" using old [of k] by simp_all
    then have "(\<Sum>j<k. pg_filesize (pages kv j)) + pg_filesize (pages kv k) \<le> filelen kv"
      by (simp add: page_desc_def page_stored_def)
    then show ?thesis using k by simp
  qed
  define pg where "pg = \<lparr>pg_nkey = nkey kv, pg_keysize = keysize kv, pg_valuesize = valuesize kv,
         pg_exactsize = nkey kv * twolenbytes + keysize kv + valuesize kv,
         pg_alignsize = alignsize kv, pg_filesize = ?fsz, pg_fileoffset = ?off\<rparr>"
  have cp: "create_page kv = kv\<lparr>pages := (pages kv)(?n := pg)\<rparr>"
    by (simp only: create_page_def np off pg_def)
  define kvo where "kvo = (if done = [] then kv\<lparr>pages := (pages kv)(?n := pg), fp := Some WB, fdata := (\<lambda>_. 0), filelen := 0, fileflag := True\<rparr>
     else kv\<lparr>pages := (pages kv)(?n := pg)\<rparr>)"
  have ok: "done = [] \<longrightarrow> fopen_ok kv" and kv1: "kv1 = file_write kvo ?off ?fsz"
    using w by (auto simp: write_page_def cp fpv kvo_def np pg_def Let_def split: if_splits)
  have kvo_fields: "page kvo = page kv" "mem kvo = mem kv" "pages kvo = (pages kv)(?n := pg)"
    "kalignm1 kvo = kalignm1 kv" "valignm1 kvo = valignm1 kv" "talignm1 kvo = talignm1 kv"
    "fp kvo = Some WB" "fopen_ok kvo = fopen_ok kv" "nkey kvo = nkey kv" "npage kvo = npage kv"
    using fpv by (simp_all add: kvo_def)
  have kvo_len: "?off \<le> filelen kvo"
    using offlen by (simp add: kvo_def)
  have kvo_data: "done \<noteq> [] \<Longrightarrow> fdata kvo = fdata kv \<and> filelen kvo = filelen kv"
    by (simp add: kvo_def)
  have f1: "page kv1 = page kv" "mem kv1 = mem kv" "pages kv1 = (pages kv)(?n := pg)"
    "kalignm1 kv1 = kalignm1 kv" "valignm1 kv1 = valignm1 kv" "talignm1 kv1 = talignm1 kv"
    "fp kv1 = Some WB" "fopen_ok kv1 = fopen_ok kv" "npage kv1 = npage kv"
    by (simp_all add: kv1 file_write_def kvo_fields)
  have ff: "fileflag kv1"
    using b by (auto simp: kv1 file_write_def kvo_def building_def)
  have len1: "?off + ?fsz \<le> filelen kv1" "filelen kvo \<le> filelen kv1"
    using kvo_len by (auto simp: kv1 file_write_def kvo_fields)
  have data_new: "fdata kv1 (?off + (a - page kv)) = mem kv a"
    if a: "page kv \<le> a" "a < page kv + alignsize kv" for a
  proof -
    from a al have nz: "?fsz \<noteq> 0" and lt: "a - page kv < ?fsz" by linarith+
    have "fdata kv1 (?off + (a - page kv)) = mem kv (page kv + (?off + (a - page kv) - ?off))"
      unfolding kv1 file_write_def using nz lt by (simp add: kvo_fields del: add_diff_cancel_left')
    then show ?thesis using a by simp
  qed
  have data_old: "\<And>x. x < ?off \<Longrightarrow> fdata kv1 x = fdata kvo x"
    by (auto simp: kv1 file_write_def kvo_fields)
  have new_desc: "page_desc ?kv' ?n cur"
    using b by (simp add: page_desc_def init_page_def f1 pg_def building_def)
  have new_stored: "page_stored ?kv' ?n cur"
  proof -
    have "enc (file_view kv1 ?off) (2 ^ i - 1) (2 ^ j - 1) (2 ^ l - 1) (page kv) cur (page kv + alignsize kv)"
      using e
    proof (rule enc_cong)
      fix a assume "page kv \<le> a" "a < page kv + alignsize kv"
      then show "file_view kv1 ?off a = mem kv a"
        unfolding file_view_def f1 by (rule data_new)
    qed
    then show ?thesis
      using len1 by (simp add: page_stored_def init_page_def f1 m pg_def)
  qed
  have old': "page_desc ?kv' n (done ! n) \<and> page_stored ?kv' n (done ! n)" if n: "n < ?n" for n
  proof -
    from n have ne: "done \<noteq> []" by auto
    from old [OF n] have d: "page_desc kv n (done ! n)" and s: "page_stored kv n (done ! n)" by simp_all
    have pn: "pages kv1 n = pages kv n" using n by (simp add: f1)
    have "\<And>k. k < n \<Longrightarrow> pages kv1 k = pages kv k" using n by (simp add: f1)
    then have sums: "(\<Sum>j<n. pg_filesize (pages kv1 j)) = (\<Sum>j<n. pg_filesize (pages kv j))"
      by simp
    have d': "page_desc ?kv' n (done ! n)"
      using d by (simp add: page_desc_def init_page_def pn sums)
    have end_le: "pg_fileoffset (pages kv n) + pg_filesize (pages kv n) \<le> ?off"
      using d sum_filesize_le [OF n, of "\<lambda>j. pg_filesize (pages kv j)"] by (simp add: page_desc_def)
    have asz: "pg_alignsize (pages kv n) \<le> pg_filesize (pages kv n)"
      using d roundup_ge [of ALIGNFILE "pg_alignsize (pages kv n)"] by (simp add: page_desc_def ALIGNFILE_def)
    from s have e0: "enc (file_view kv (pg_fileoffset (pages kv n))) (2 ^ i - 1) (2 ^ j - 1) (2 ^ l - 1)
        (page kv) (done ! n) (page kv + pg_alignsize (pages kv n))"
      by (simp add: page_stored_def m)
    have "enc (file_view kv1 (pg_fileoffset (pages kv n))) (2 ^ i - 1) (2 ^ j - 1) (2 ^ l - 1)
        (page kv) (done ! n) (page kv + pg_alignsize (pages kv n))"
      using e0
    proof (rule enc_cong)
      fix a assume a: "page kv \<le> a" "a < page kv + pg_alignsize (pages kv n)"
      then have "pg_fileoffset (pages kv n) + (a - page kv) < ?off"
        using end_le asz by linarith
      then have "fdata kv1 (pg_fileoffset (pages kv n) + (a - page kv))
          = fdata kvo (pg_fileoffset (pages kv n) + (a - page kv))"
        by (rule data_old)
      then show "file_view kv1 (pg_fileoffset (pages kv n)) a = file_view kv (pg_fileoffset (pages kv n)) a"
        unfolding file_view_def f1 using kvo_data [OF ne] by (simp only:)
    qed
    moreover have "pg_fileoffset (pages kv n) + pg_filesize (pages kv n) \<le> filelen kv1"
      using s len1(2) kvo_data [OF ne] by (simp add: page_stored_def)
    ultimately have "page_stored ?kv' n (done ! n)"
      using n by (simp add: page_stored_def init_page_def f1 m)
    with d' show ?thesis ..
  qed
  have all: "\<forall>n<length (done @ [cur]). page_desc ?kv' n ((done @ [cur]) ! n) \<and> page_stored ?kv' n ((done @ [cur]) ! n)"
  proof (intro allI impI)
    fix n assume "n < length (done @ [cur])"
    then consider "n < ?n" | "n = ?n" by fastforce
    then show "page_desc ?kv' n ((done @ [cur]) ! n) \<and> page_stored ?kv' n ((done @ [cur]) ! n)"
    proof cases
      case 1
      then show ?thesis using old' [OF 1] by (simp add: nth_append)
    next
      case 2
      then show ?thesis using new_desc new_stored by (simp add: nth_append)
    qed
  qed
  have okk: "fopen_ok kv"
    using ok b by (auto simp: building_def)
  show ?thesis
    unfolding building_def
    using all ff okk m np
    by (simp add: masks_def init_page_def f1 keys_size_def values_size_def)
qed

lemma kvsize_exact:
  assumes "masks kv i j l" "fits_int i j l r"
  shows "to_int32 (int (nptr_of (kalignm1 kv) (valignm1 kv) (talignm1 kv) (page kv + alignsize kv)
             (length (fst r)) (length (snd r))) - int (page kv + alignsize kv)) = int (kvsize kv r)"
  using assms(1) kvbytes_exact(1) [OF assms(2), of "page kv + alignsize kv"]
  by (simp only: masks_def kvsize_def)

text \<open>\<open>add\<close> when the truncation to \<open>int\<close> is exact.\<close>

lemma add_exact:
  assumes "masks kv i j l" "fits_int i j l r"
  shows "add kv (fst r) (snd r) =
     (if alignsize kv + kvsize kv r > pagesize kv \<or> nkey kv = INTMAX then
           (if alignsize kv = 0
            then Inl (ErrorOne ''Single key/value pair exceeds page size'')
            else (case write_page (create_page kv) of
                    Inl e \<Rightarrow> Inl e
                  | Inr kv1 \<Rightarrow> add (init_page (kv1\<lparr>npage := npage kv1 + 1\<rparr>)) (fst r) (snd r)))
         else Inr (kv\<lparr>mem := put (mem kv) (kalignm1 kv) (valignm1 kv) (page kv + alignsize kv) r,
                      nkey := nkey kv + 1,
                      keysize := keysize kv + length (fst r),
                      valuesize := valuesize kv + length (snd r),
                      alignsize := alignsize kv + kvsize kv r\<rparr>))"
proof -
  have "int (alignsize kv) + int (kvsize kv r) > int (pagesize kv) \<longleftrightarrow>
      alignsize kv + kvsize kv r > pagesize kv"
    by linarith
  then show ?thesis
    by (subst add_eq) (simp only: Let_def kvsize_exact [OF assms] prod.collapse nat_int
        of_nat_less_0_iff if_False)
qed

lemma building_masks: "building kv i j l done cur \<Longrightarrow> masks kv i j l"
  by (simp add: building_def)

lemma building_store':
  assumes b: "building kv i j l done cur" and f: "fits_int i j l r"
  shows "building (kv\<lparr>mem := put (mem kv) (kalignm1 kv) (valignm1 kv) (page kv + alignsize kv) r,
                      nkey := nkey kv + 1,
                      keysize := keysize kv + length (fst r),
                      valuesize := valuesize kv + length (snd r),
                      alignsize := alignsize kv + kvsize kv r\<rparr>) i j l done (cur @ [r])"
  unfolding kvsize_def by (rule building_store [OF b f])

lemma add_building:
  assumes b: "building kv i j l done cur" and f: "fits_int i j l r"
    and a: "add kv (fst r) (snd r) = Inr kv'"
  shows "building kv' i j l done (cur @ [r]) \<or> building kv' i j l (done @ [cur]) [r]"
proof (cases "alignsize kv + kvsize kv r > pagesize kv \<or> nkey kv = INTMAX")
  case False
  then have "kv' = kv\<lparr>mem := put (mem kv) (kalignm1 kv) (valignm1 kv) (page kv + alignsize kv) r,
                      nkey := nkey kv + 1,
                      keysize := keysize kv + length (fst r),
                      valuesize := valuesize kv + length (snd r),
                      alignsize := alignsize kv + kvsize kv r\<rparr>"
    using a unfolding add_exact [OF building_masks [OF b] f] by (simp only: if_False sum.inject)
  then show ?thesis using building_store' [OF b f] by (simp only: simp_thms)
next
  case True
  have u: "(if alignsize kv = 0
            then Inl (ErrorOne ''Single key/value pair exceeds page size'')
            else (case write_page (create_page kv) of
                    Inl e \<Rightarrow> Inl e
                  | Inr kv1 \<Rightarrow> add (init_page (kv1\<lparr>npage := npage kv1 + 1\<rparr>)) (fst r) (snd r))) = Inr kv'"
    using a True unfolding add_exact [OF building_masks [OF b] f] by (simp only: if_True)
  then have nz: "alignsize kv \<noteq> 0" by (auto split: if_splits)
  from u nz obtain kv1 where w: "write_page (create_page kv) = Inr kv1"
    and a2: "add (init_page (kv1\<lparr>npage := npage kv1 + 1\<rparr>)) (fst r) (snd r) = Inr kv'"
    by (auto split: sum.splits)
  let ?kv2 = "init_page (kv1\<lparr>npage := npage kv1 + 1\<rparr>)"
  have b2: "building ?kv2 i j l (done @ [cur]) []"
    by (rule building_flush [OF b w])
  have z: "alignsize ?kv2 = 0" by (simp add: init_page_def)
  have "building kv' i j l (done @ [cur]) ([] @ [r])"
  proof (cases "alignsize ?kv2 + kvsize ?kv2 r > pagesize ?kv2 \<or> nkey ?kv2 = INTMAX")
    case False
    then have "kv' = ?kv2\<lparr>mem := put (mem ?kv2) (kalignm1 ?kv2) (valignm1 ?kv2) (page ?kv2 + alignsize ?kv2) r,
                      nkey := nkey ?kv2 + 1,
                      keysize := keysize ?kv2 + length (fst r),
                      valuesize := valuesize ?kv2 + length (snd r),
                      alignsize := alignsize ?kv2 + kvsize ?kv2 r\<rparr>"
      using a2 unfolding add_exact [OF building_masks [OF b2] f] by (simp only: if_False sum.inject)
    then show ?thesis using building_store' [OF b2 f] by (simp only: simp_thms)
  next
    case True
    then show ?thesis
      using a2 z unfolding add_exact [OF building_masks [OF b2] f] by simp
  qed
  then show ?thesis by simp
qed

lemma building_empty_page:
  "building kv i j l done [] \<Longrightarrow> alignsize kv = 0 \<and> nkey kv = 0"
  by (simp add: building_def)

lemma INTMAX_pos: "0 \<noteq> INTMAX"
  by (simp add: INTMAX_def)

lemma add_all_building:
  assumes "building kv i j l done cur" and "\<forall>r \<in> set rs. fits_int i j l r"
    and "add_all kv rs = Inr kv'"
  shows "\<exists>done' cur'. building kv' i j l done' cur' \<and> concat done' @ cur' = concat done @ cur @ rs"
  using assms
proof (induction rs arbitrary: kv "done" cur)
  case Nil
  then show ?case by auto
next
  case (Cons r rs)
  obtain k v where r: "r = (k, v)" by (cases r)
  from Cons.prems(3) obtain kv1 where a1: "add kv (fst r) (snd r) = Inr kv1" and a2: "add_all kv1 rs = Inr kv'"
    by (auto simp: r split: sum.splits)
  from Cons.prems(2) have f: "fits_int i j l r" and fs: "\<forall>r \<in> set rs. fits_int i j l r" by simp_all
  from add_building [OF Cons.prems(1) f a1]
  show ?case
  proof
    assume "building kv1 i j l done (cur @ [r])"
    from Cons.IH [OF this fs a2] show ?thesis by simp
  next
    assume "building kv1 i j l (done @ [cur]) [r]"
    from Cons.IH [OF this fs a2] show ?thesis by simp
  qed
qed

section \<open>Completion and iteration\<close>

lemma sum_pages_concat:
  assumes "\<And>n. n < length pgs \<Longrightarrow> f n = g (pgs ! n)"
  shows "(\<Sum>n \<leftarrow> [0 ..< length pgs]. f n) = sum_list (map g pgs)"
proof -
  have "map f [0 ..< length pgs] = map (\<lambda>n. g (pgs ! n)) [0 ..< length pgs]"
    using assms by simp
  also have "\<dots> = map g pgs"
    by (rule nth_equalityI) simp_all
  finally show ?thesis by simp
qed

lemma keys_size_simps [simp]:
  "keys_size [] = 0" "keys_size (r # rs) = length (fst r) + keys_size rs"
  by (simp_all add: keys_size_def)

lemma values_size_simps [simp]:
  "values_size [] = 0" "values_size (r # rs) = length (snd r) + values_size rs"
  by (simp_all add: values_size_def)

lemma keys_size_concat: "keys_size (concat pgs) = sum_list (map keys_size pgs)"
  by (induction pgs) simp_all

lemma values_size_concat: "values_size (concat pgs) = sum_list (map values_size pgs)"
  by (induction pgs) simp_all

lemma completed_totals:
  assumes "completed kv i j l pgs"
  shows "nkv (set_totals kv) = length (concat pgs)"
    and "ksize (set_totals kv) = keys_size (concat pgs)"
    and "vsize (set_totals kv) = values_size (concat pgs)"
    and "tsize (set_totals kv) = length (concat pgs) * twolenbytes + keys_size (concat pgs) + values_size (concat pgs)"
proof -
  from assms have np: "npage kv = length pgs" and d: "\<And>n. n < length pgs \<Longrightarrow> page_desc kv n (pgs ! n)"
    by (simp_all add: completed_def)
  show "nkv (set_totals kv) = length (concat pgs)"
    using sum_pages_concat [of pgs "\<lambda>n. pg_nkey (pages kv n)" length] d
    by (simp add: set_totals_def np page_desc_def length_concat)
  show "ksize (set_totals kv) = keys_size (concat pgs)"
    using sum_pages_concat [of pgs "\<lambda>n. pg_keysize (pages kv n)" keys_size] d
    by (simp add: set_totals_def np page_desc_def keys_size_concat)
  show "vsize (set_totals kv) = values_size (concat pgs)"
    using sum_pages_concat [of pgs "\<lambda>n. pg_valuesize (pages kv n)" values_size] d
    by (simp add: set_totals_def np page_desc_def values_size_concat)
  have "(\<Sum>n \<leftarrow> [0 ..< length pgs]. pg_exactsize (pages kv n))
      = sum_list (map (\<lambda>rs. length rs * twolenbytes + keys_size rs + values_size rs) pgs)"
    using d by (intro sum_pages_concat) (simp add: page_desc_def)
  also have "\<dots> = length (concat pgs) * twolenbytes + keys_size (concat pgs) + values_size (concat pgs)"
    by (induction pgs) (simp_all add: algebra_simps)
  finally show "tsize (set_totals kv) = length (concat pgs) * twolenbytes + keys_size (concat pgs) + values_size (concat pgs)"
    by (simp add: set_totals_def np)
qed

lemma completed_set_totals: "completed kv i j l pgs \<Longrightarrow> completed (set_totals kv) i j l pgs"
  by (auto simp: completed_def set_totals_def masks_def)

text \<open>\<open>complete\<close> on an object that is being filled.\<close>

lemma complete_building:
  assumes b: "building kv i j l done cur"
  shows "\<exists>kv'. complete kv = Inr kv' \<and> completed kv' i j l (done @ [cur]) \<and>
     nkv kv' = length (concat done @ cur) \<and> ksize kv' = keys_size (concat done @ cur) \<and>
     vsize kv' = values_size (concat done @ cur) \<and>
     tsize kv' = length (concat done @ cur) * twolenbytes + keys_size (concat done @ cur) + values_size (concat done @ cur)"
proof -
  have "\<exists>kv3. complete kv = Inr (set_totals kv3) \<and> completed kv3 i j l (done @ [cur])"
  proof (cases "done = []")
    case True
    with b have ff: "\<not> fileflag (create_page kv)" by (simp add: building_def create_page_def)
    let ?kv3 = "init_page ((create_page kv)\<lparr>npage := npage (create_page kv) + 1\<rparr>)"
    have c: "complete kv = Inr (set_totals ?kv3)"
      using ff by (simp add: complete_def Let_def)
    have "completed ?kv3 i j l [cur]"
      using b True
      by (auto simp: completed_def building_def masks_def init_page_def create_page_def
          page_desc_def)
    with c True show ?thesis by auto
  next
    case False
    with b have ff: "fileflag (create_page kv)" and fpv: "fp (create_page kv) = Some WB"
      by (simp_all add: building_def create_page_def)
    from fpv obtain kv1 where w: "write_page (create_page kv) = Inr kv1"
      by (simp add: write_page_def Let_def)
    let ?kv2 = "init_page (kv1\<lparr>npage := npage kv1 + 1\<rparr>)"
    have b2: "building ?kv2 i j l (done @ [cur]) []"
      by (rule building_flush [OF b w])
    let ?kv3 = "init_page (kv1\<lparr>fp := None\<rparr>\<lparr>npage := npage (kv1\<lparr>fp := None\<rparr>) + 1\<rparr>)"
    have c: "complete kv = Inr (set_totals ?kv3)"
      using ff w by (simp add: complete_def Let_def)
    have "completed ?kv3 i j l (done @ [cur])"
      using b2 by (auto simp: completed_def building_def masks_def init_page_def)
    with c show ?thesis by blast
  qed
  then obtain kv3 where c: "complete kv = Inr (set_totals kv3)" and d: "completed kv3 i j l (done @ [cur])"
    by blast
  show ?thesis
    using c completed_set_totals [OF d] completed_totals [OF d] by simp
qed

text \<open>\<open>request_page\<close> on a completed object brings the pairs of the page into memory.\<close>

lemma request_page_completed:
  assumes c: "completed kv i j l pgs" and n: "n < length pgs"
  shows "\<exists>kv1 sizes. request_page kv n = Inr (kv1, length (pgs ! n), sizes) \<and>
     completed kv1 i j l pgs \<and> page kv1 = page kv \<and>
     enc (mem kv1) (2 ^ i - 1) (2 ^ j - 1) (2 ^ l - 1) (page kv) (pgs ! n)
         (page kv + pg_alignsize (pages kv n))"
proof (cases "fileflag kv")
  case False
  with c n have n0: "n = 0" and e: "enc (mem kv) (2 ^ i - 1) (2 ^ j - 1) (2 ^ l - 1) (page kv) (pgs ! 0)
         (page kv + pg_alignsize (pages kv 0))"
    by (auto simp: completed_def masks_def)
  from c n have "pg_nkey (pages kv n) = length (pgs ! n)"
    by (auto simp: completed_def page_desc_def)
  then have "request_page kv n = Inr (kv, length (pgs ! n), pg_keysize (pages kv n),
      pg_valuesize (pages kv n), pg_alignsize (pages kv n))"
    using False by (simp add: request_page_def)
  with c e n0 show ?thesis by auto
next
  case True
  from c have m: "kalignm1 kv = 2 ^ i - 1" "valignm1 kv = 2 ^ j - 1" "talignm1 kv = 2 ^ l - 1"
    by (simp_all add: completed_def masks_def)
  from c n True have d: "page_desc kv n (pgs ! n)" and s: "page_stored kv n (pgs ! n)"
    and ok: "fopen_ok kv" and fpv: "fp kv = None \<or> fp kv = Some RB"
    by (auto simp: completed_def)
  define kvo where "kvo = (if fp kv = None then kv\<lparr>fp := Some RB\<rparr> else kv)"
  define kvr where "kvr = file_read kvo (pg_fileoffset (pages kv n)) (pg_filesize (pages kv n))"
  define kv1 where "kv1 = (if int n = int (npage kvr) - 1 \<and> fileflag kvr then kvr\<lparr>fp := None\<rparr> else kvr)"
  have rp: "read_page kv n False = Inr kvr"
    using ok by (simp add: read_page_def kvo_def kvr_def Let_def)
  have rq: "request_page kv n = Inr (kv1, pg_nkey (pages kv1 n), pg_keysize (pages kv1 n),
      pg_valuesize (pages kv1 n), pg_alignsize (pages kv1 n))"
    using True rp by (simp add: request_page_def kv1_def Let_def)
  have fr: "pages kv1 = pages kv" "page kv1 = page kv" "fdata kv1 = fdata kv" "filelen kv1 = filelen kv"
    "kalignm1 kv1 = kalignm1 kv" "valignm1 kv1 = valignm1 kv" "talignm1 kv1 = talignm1 kv"
    "npage kv1 = npage kv" "fileflag kv1 = fileflag kv" "fopen_ok kv1 = fopen_ok kv"
    "mem kv1 = mem kvr" "fp kv1 = None \<or> fp kv1 = Some RB"
    using fpv by (auto simp: kv1_def kvr_def kvo_def file_read_def)
  have asz: "pg_alignsize (pages kv n) \<le> pg_filesize (pages kv n)"
    using d roundup_ge [of ALIGNFILE "pg_alignsize (pages kv n)"] by (simp add: page_desc_def ALIGNFILE_def)
  from s have e0: "enc (file_view kv (pg_fileoffset (pages kv n))) (2 ^ i - 1) (2 ^ j - 1) (2 ^ l - 1)
        (page kv) (pgs ! n) (page kv + pg_alignsize (pages kv n))"
    and len: "pg_fileoffset (pages kv n) + pg_filesize (pages kv n) \<le> filelen kv"
    by (simp_all add: page_stored_def m)
  have e1: "enc (mem kvr) (2 ^ i - 1) (2 ^ j - 1) (2 ^ l - 1)
        (page kv) (pgs ! n) (page kv + pg_alignsize (pages kv n))"
    using e0
  proof (rule enc_cong)
    fix a assume a: "page kv \<le> a" "a < page kv + pg_alignsize (pages kv n)"
    then have "a < page kv + pg_filesize (pages kv n)"
      and "pg_fileoffset (pages kv n) + (a - page kv) < filelen kv"
      using asz len by linarith+
    then show "mem kvr a = file_view kv (pg_fileoffset (pages kv n)) a"
      using a(1) unfolding kvr_def file_read_def file_view_def kvo_def by simp
  qed
  have c1: "completed kv1 i j l pgs"
    unfolding completed_def
  proof (intro conjI)
    show "masks kv1 i j l" using m by (simp add: masks_def fr)
    show "npage kv1 = length pgs" using c by (simp add: completed_def fr)
    show "\<forall>n<length pgs. page_desc kv1 n (pgs ! n)"
      using c by (simp add: completed_def page_desc_def fr)
    show "if fileflag kv1
      then (\<forall>n<length pgs. page_stored kv1 n (pgs ! n)) \<and> fopen_ok kv1 \<and> (fp kv1 = None \<or> fp kv1 = Some RB)
      else length pgs = 1 \<and>
        enc (mem kv1) (kalignm1 kv1) (valignm1 kv1) (talignm1 kv1) (page kv1) (pgs ! 0)
            (page kv1 + pg_alignsize (pages kv1 0))"
      using c True fr(12) by (simp add: completed_def page_stored_def file_view_def fr(1-11))
  qed
  have "pg_nkey (pages kv1 n) = length (pgs ! n)"
    using d by (simp add: page_desc_def fr)
  with rq c1 e1 fr show ?thesis by auto
qed

lemma iterate_pages_completed:
  assumes "completed kv i j l pgs" and "\<forall>n \<in> set ns. n < length pgs"
  shows "\<exists>kv' out. iterate_pages kv ns = Inr (kv', out) \<and>
     map (map snd) out = map ((!) pgs) ns"
  using assms
proof (induction ns arbitrary: kv)
  case Nil
  then show ?case by simp
next
  case (Cons n ns)
  from Cons.prems have n: "n < length pgs" and ns: "\<forall>n \<in> set ns. n < length pgs" by simp_all
  from request_page_completed [OF Cons.prems(1) n]
  obtain kv1 sizes where rq: "request_page kv n = Inr (kv1, length (pgs ! n), sizes)"
    and c1: "completed kv1 i j l pgs" and pg: "page kv1 = page kv"
    and e: "enc (mem kv1) (2 ^ i - 1) (2 ^ j - 1) (2 ^ l - 1) (page kv) (pgs ! n)
         (page kv + pg_alignsize (pages kv n))"
    by blast
  from c1 have m: "kalignm1 kv1 = 2 ^ i - 1" "valignm1 kv1 = 2 ^ j - 1" "talignm1 kv1 = 2 ^ l - 1"
    by (simp_all add: completed_def masks_def)
  from Cons.IH [OF c1 ns] obtain kv' out where
    it: "iterate_pages kv1 ns = Inr (kv', out)" and o: "map (map snd) out = map ((!) pgs) ns"
    by blast
  have w: "map (entry_kv (mem kv1)) (walk (mem kv1) (2 ^ i - 1) (2 ^ j - 1) (2 ^ l - 1) (page kv) (length (pgs ! n))) = pgs ! n"
    using e by (rule walk_enc)
  show ?case
    using rq it o w by (simp add: Let_def request_info_def m pg comp_def)
qed

section \<open>Alignment of what an iteration meets\<close>

lemma ROUNDUP_dvd: "2 ^ k dvd ROUNDUP A (2 ^ k - 1)"
  by (simp add: ROUNDUP_roundup roundup_dvd)

lemma walk_aligned:
  "2 ^ l dvd p \<Longrightarrow> list_all (entry_aligned (2 ^ i) (2 ^ j) (2 ^ l)) (walk m (2 ^ i - 1) (2 ^ j - 1) (2 ^ l - 1) p n)"
  by (induction n arbitrary: p) (simp_all add: entry_aligned_def Let_def ROUNDUP_dvd)

lemma request_page_frame:
  assumes "request_page kv n = Inr (kv1, x)"
  shows "page kv1 = page kv \<and> kalignm1 kv1 = kalignm1 kv \<and> valignm1 kv1 = valignm1 kv \<and>
     talignm1 kv1 = talignm1 kv"
  using assms
  by (auto simp: request_page_def read_page_def file_read_def Let_def split: if_splits sum.splits)

lemma iterate_pages_aligned:
  assumes "iterate_pages kv ns = Inr (kv', out)"
    and "kalignm1 kv = 2 ^ i - 1" "valignm1 kv = 2 ^ j - 1" "talignm1 kv = 2 ^ l - 1"
    and "2 ^ l dvd page kv"
  shows "list_all (list_all (\<lambda>x. entry_aligned (2 ^ i) (2 ^ j) (2 ^ l) (fst x))) out"
  using assms
proof (induction ns arbitrary: kv out)
  case Nil
  then show ?case by simp
next
  case (Cons n ns)
  from Cons.prems(1) obtain kv1 nk sizes more where
    rq: "request_page kv n = Inr (kv1, nk, sizes)"
    and it: "iterate_pages kv1 ns = Inr (kv', more)"
    and out: "out = map (\<lambda>e. (e, entry_kv (mem kv1) e))
        (walk (mem kv1) (kalignm1 kv1) (valignm1 kv1) (talignm1 kv1) (snd (request_info kv1)) nk) # more"
    by (auto simp: Let_def split: sum.splits)
  from request_page_frame [OF rq] Cons.prems
  have fr: "kalignm1 kv1 = 2 ^ i - 1" "valignm1 kv1 = 2 ^ j - 1" "talignm1 kv1 = 2 ^ l - 1"
    "page kv1 = page kv" "2 ^ l dvd page kv1"
    by simp_all
  have "list_all (list_all (\<lambda>x. entry_aligned (2 ^ i) (2 ^ j) (2 ^ l) (fst x))) more"
    by (rule Cons.IH [OF it fr(1,2,3,5)])
  moreover have "list_all (entry_aligned (2 ^ i) (2 ^ j) (2 ^ l))
      (walk (mem kv1) (2 ^ i - 1) (2 ^ j - 1) (2 ^ l - 1) (page kv1) nk)"
    by (rule walk_aligned [OF fr(5)])
  ultimately show ?case
    by (simp add: out fr request_info_def list_all_iff)
qed

lemma sum_dvd_offsets:
  assumes "\<And>k. k < n \<Longrightarrow> (d::nat) dvd f k"
  shows "d dvd (\<Sum>k<n. f k)"
  using assms by (intro dvd_sum) simp

lemma completed_offsets:
  assumes "completed kv i j l pgs" "n < npage kv"
  shows "ALIGNFILE dvd pg_fileoffset (pages kv n)"
proof -
  from assms have np: "npage kv = length pgs" and d: "\<And>k. k < length pgs \<Longrightarrow> page_desc kv k (pgs ! k)"
    by (simp_all add: completed_def)
  have "pg_fileoffset (pages kv n) = (\<Sum>k<n. pg_filesize (pages kv k))"
    using d [of n] assms(2) np by (simp add: page_desc_def)
  moreover have "ALIGNFILE dvd (\<Sum>k<n. pg_filesize (pages kv k))"
  proof (rule sum_dvd_offsets)
    fix k assume "k < n"
    then have "page_desc kv k (pgs ! k)" using d [of k] assms(2) np by simp
    then show "ALIGNFILE dvd pg_filesize (pages kv k)"
      by (simp add: page_desc_def roundup_dvd)
  qed
  ultimately show ?thesis by simp
qed

lemma complete_frame:
  assumes "complete kv = Inr kv'"
  shows "same_frame kv kv'"
  using assms
  by (auto simp: complete_def Let_def create_page_def write_page_def file_write_def init_page_def
      set_totals_def same_frame_def split: if_splits sum.splits)

lemma flush_frame:
  assumes "write_page (create_page kv) = Inr kv1"
  shows "same_frame kv (init_page (kv1\<lparr>npage := npage kv1 + 1\<rparr>))"
  using assms
  by (auto simp: create_page_def write_page_def file_write_def init_page_def
      same_frame_def Let_def split: if_splits)

lemma same_frame_trans: "same_frame a b \<Longrightarrow> same_frame b c \<Longrightarrow> same_frame a c"
  by (simp add: same_frame_def)

lemma same_frame_refl: "same_frame a a"
  by (simp add: same_frame_def)

lemma add_same_frame:
  assumes b: "building kv i j l done cur" and f: "fits_int i j l r"
    and a: "add kv (fst r) (snd r) = Inr kv'"
  shows "same_frame kv kv'"
proof (cases "alignsize kv + kvsize kv r > pagesize kv \<or> nkey kv = INTMAX")
  case False
  then have "kv' = kv\<lparr>mem := put (mem kv) (kalignm1 kv) (valignm1 kv) (page kv + alignsize kv) r,
                      nkey := nkey kv + 1,
                      keysize := keysize kv + length (fst r),
                      valuesize := valuesize kv + length (snd r),
                      alignsize := alignsize kv + kvsize kv r\<rparr>"
    using a unfolding add_exact [OF building_masks [OF b] f] by (simp only: if_False sum.inject)
  then show ?thesis by (simp add: same_frame_def)
next
  case True
  have u: "(if alignsize kv = 0
            then Inl (ErrorOne ''Single key/value pair exceeds page size'')
            else (case write_page (create_page kv) of
                    Inl e \<Rightarrow> Inl e
                  | Inr kv1 \<Rightarrow> add (init_page (kv1\<lparr>npage := npage kv1 + 1\<rparr>)) (fst r) (snd r))) = Inr kv'"
    using a True unfolding add_exact [OF building_masks [OF b] f] by (simp only: if_True)
  then have nz: "alignsize kv \<noteq> 0" by (auto split: if_splits)
  from u nz obtain kv1 where w: "write_page (create_page kv) = Inr kv1"
    and a2: "add (init_page (kv1\<lparr>npage := npage kv1 + 1\<rparr>)) (fst r) (snd r) = Inr kv'"
    by (auto split: sum.splits)
  let ?kv2 = "init_page (kv1\<lparr>npage := npage kv1 + 1\<rparr>)"
  have b2: "building ?kv2 i j l (done @ [cur]) []"
    by (rule building_flush [OF b w])
  have z: "alignsize ?kv2 = 0" by (simp add: init_page_def)
  have "same_frame ?kv2 kv'"
  proof (cases "alignsize ?kv2 + kvsize ?kv2 r > pagesize ?kv2 \<or> nkey ?kv2 = INTMAX")
    case False
    then have "kv' = ?kv2\<lparr>mem := put (mem ?kv2) (kalignm1 ?kv2) (valignm1 ?kv2) (page ?kv2 + alignsize ?kv2) r,
                      nkey := nkey ?kv2 + 1,
                      keysize := keysize ?kv2 + length (fst r),
                      valuesize := valuesize ?kv2 + length (snd r),
                      alignsize := alignsize ?kv2 + kvsize ?kv2 r\<rparr>"
      using a2 unfolding add_exact [OF building_masks [OF b2] f] by (simp only: if_False sum.inject)
    then show ?thesis by (simp add: same_frame_def)
  next
    case True
    then show ?thesis
      using a2 z unfolding add_exact [OF building_masks [OF b2] f] by simp
  qed
  with flush_frame [OF w] show ?thesis by (rule same_frame_trans)
qed

lemma add_all_same_frame:
  assumes "building kv i j l done cur" and "\<forall>r \<in> set rs. fits_int i j l r"
    and "add_all kv rs = Inr kv'"
  shows "same_frame kv kv'"
  using assms
proof (induction rs arbitrary: kv "done" cur)
  case Nil
  then show ?case by (simp add: same_frame_refl)
next
  case (Cons r rs)
  from Cons.prems(3) obtain kv1 where a1: "add kv (fst r) (snd r) = Inr kv1" and a2: "add_all kv1 rs = Inr kv'"
    by (cases r) (auto split: sum.splits)
  from Cons.prems(2) have f: "fits_int i j l r" and fs: "\<forall>r \<in> set rs. fits_int i j l r" by simp_all
  note s1 = add_same_frame [OF Cons.prems(1) f a1]
  from add_building [OF Cons.prems(1) f a1]
  have "same_frame kv1 kv'"
  proof
    assume "building kv1 i j l done (cur @ [r])"
    from Cons.IH [OF this fs a2] show ?thesis .
  next
    assume "building kv1 i j l (done @ [cur]) [r]"
    from Cons.IH [OF this fs a2] show ?thesis .
  qed
  with s1 show ?case by (rule same_frame_trans)
qed

section \<open>The page boundary in \<open>add\<close>\<close>

lemma roundup_add_dvd:
  assumes "0 < K" "K dvd p"
  shows "roundup (p + x) K = p + roundup x K"
proof -
  from assms(2) obtain q where p: "p = K * q" by (rule dvdE)
  have m: "(p + x) mod K = x mod K" by (simp add: p)
  have d: "(p + x) div K = q + x div K" using assms(1) by (simp add: p)
  show ?thesis
    unfolding roundup_def m d by (simp add: p algebra_simps)
qed

lemma pow2_dvd_mono: "i \<le> l \<Longrightarrow> (2::nat) ^ l dvd p \<Longrightarrow> 2 ^ i dvd p"
  by (meson dvd_trans le_imp_power_dvd)

lemma nptr_packed:
  assumes "i \<le> l" "j \<le> l" "2 ^ l dvd p"
  shows "nptr_of (2 ^ i - 1) (2 ^ j - 1) (2 ^ l - 1) p lk lv = p + packed_size (2 ^ i) (2 ^ j) (2 ^ l) lk lv"
proof -
  have pi: "2 ^ i dvd p" and pj: "2 ^ j dvd p"
    using assms by (auto intro: pow2_dvd_mono)
  have k: "kptr_of (2 ^ i - 1) p = p + roundup twolenbytes (2 ^ i)"
    by (simp add: kptr_of_def ROUNDUP_roundup roundup_add_dvd pi)
  have v: "vptr_of (2 ^ i - 1) (2 ^ j - 1) p lk = p + roundup (roundup twolenbytes (2 ^ i) + lk) (2 ^ j)"
    by (simp add: vptr_of_def k ROUNDUP_roundup roundup_add_dvd pj add.assoc)
  show ?thesis
    by (simp add: nptr_of_def v ROUNDUP_roundup roundup_add_dvd assms(3) add.assoc packed_size_def)
qed

lemma enc_aligned_end:
  "2 ^ l dvd p \<Longrightarrow> enc m (2 ^ i - 1) (2 ^ j - 1) (2 ^ l - 1) p rs e \<Longrightarrow> 2 ^ l dvd e"
proof (induction rs arbitrary: p)
  case Nil
  then show ?case by simp
next
  case (Cons r rs)
  have "2 ^ l dvd nptr_of (2 ^ i - 1) (2 ^ j - 1) (2 ^ l - 1) p (length (fst r)) (length (snd r))"
    by (simp add: nptr_of_def ROUNDUP_dvd)
  then show ?case using Cons.prems(2) by (auto intro: Cons.IH)
qed

lemma enc_size_ge:
  "enc m (2 ^ i - 1) (2 ^ j - 1) (2 ^ l - 1) p rs e \<Longrightarrow> p + twolenbytes * length rs \<le> e"
proof (induction rs arbitrary: p)
  case Nil
  then show ?case by simp
next
  case (Cons r rs)
  let ?n = "nptr_of (2 ^ i - 1) (2 ^ j - 1) (2 ^ l - 1) p (length (fst r)) (length (snd r))"
  from Cons.prems have "enc m (2 ^ i - 1) (2 ^ j - 1) (2 ^ l - 1) ?n rs e" by simp
  then have "?n + twolenbytes * length rs \<le> e" by (rule Cons.IH)
  moreover have "p + twolenbytes \<le> ?n"
    using ptrs_order [of p i "length (fst r)" j "length (snd r)" l] by linarith
  ultimately show ?case by simp
qed

text \<open>What flushing the in-memory page does, when the stream can be written.\<close>

lemma flush_explicit:
  assumes "fp kv = None \<longrightarrow> fopen_ok kv" "fp kv \<noteq> Some RB"
  shows "\<exists>kv1. write_page (create_page kv) = Inr kv1 \<and>
     npage kv1 = npage kv \<and> mem kv1 = mem kv \<and>
     pg_nkey (pages kv1 (npage kv)) = nkey kv \<and>
     pg_alignsize (pages kv1 (npage kv)) = alignsize kv \<and>
     (\<forall>a < alignsize kv. fdata kv1 (pg_fileoffset (pages kv1 (npage kv)) + a) = mem kv (page kv + a))"
proof -
  have al: "alignsize kv \<le> roundup (alignsize kv) ALIGNFILE"
    by (rule roundup_ge) (simp add: ALIGNFILE_def)
  show ?thesis
    using assms al
    by (auto simp: write_page_def create_page_def file_write_def Let_def)
qed

section \<open>Reading back what was added\<close>


lemma add_all_append:
  "add_all kv (xs @ ys) = (case add_all kv xs of Inl e \<Rightarrow> Inl e | Inr kv1 \<Rightarrow> add_all kv1 ys)"
  by (induction xs arbitrary: kv) (auto split: sum.splits)

section \<open>An object that received no pair\<close>

text \<open>
  Claim C6, as the code has it.  \<open>complete\<close> on an object to which nothing was added
  always appends the descriptor of the (empty) in-memory page: the result has one page,
  which holds no pair and takes no byte in memory or in the spill file; no file is
  opened; and the totals \<open>nkv\<close>, \<open>ksize\<close>, \<open>vsize\<close> and \<open>tsize\<close> are all zero.
\<close>

theorem complete_empty_one_page:
  "\<exists>kv'. complete (KeyValue_new m ok memblock memsize ka va) = Inr kv' \<and>
     npage kv' = 1 \<and>
     pg_nkey (pages kv' 0) = 0 \<and> pg_keysize (pages kv' 0) = 0 \<and>
     pg_valuesize (pages kv' 0) = 0 \<and> pg_exactsize (pages kv' 0) = 0 \<and>
     pg_alignsize (pages kv' 0) = 0 \<and> pg_filesize (pages kv' 0) = 0 \<and>
     pg_fileoffset (pages kv' 0) = 0 \<and>
     nkv kv' = 0 \<and> ksize kv' = 0 \<and> vsize kv' = 0 \<and> tsize kv' = 0 \<and>
     \<not> fileflag kv' \<and> fp kv' = None"
  by (simp add: complete_def KeyValue_new_def create_page_def init_page_def set_totals_def
      roundup_def Let_def twolenbytes_def)

text \<open>
  Claim C6 as stated asks for zero pages.  On a fresh object with a page of 1024 bytes
  \<open>complete\<close> returns an object whose page count is 1, not 0.
\<close>

theorem complete_empty_zero_pages_counterexample:
  "map_sum id npage (complete (KeyValue_new zero_mem True 0 1024 4 4)) = Inr 1 \<and>
   map_sum id npage (complete (KeyValue_new zero_mem True 0 1024 4 4)) \<noteq> Inr 0"
  by (simp add: complete_def KeyValue_new_def create_page_def init_page_def set_totals_def
      roundup_def Let_def twolenbytes_def)

section \<open>Packing round trip\<close>

text \<open>
  Claim C1.  Take a fresh object whose alignments are powers of two, and a sequence of
  \<open>add\<close> calls none of which aborts, each pair being small enough for its size to fit
  an \<open>int\<close>.  Then \<open>complete\<close> succeeds, a full iteration by \<open>request_info\<close> and
  \<open>request_page\<close> succeeds, the pairs read back page after page are exactly the keys
  and values added, in insertion order, each page yields as many pairs as its descriptor
  says, and the totals \<open>nkv\<close>, \<open>ksize\<close>, \<open>vsize\<close> are the number of pairs, the sum of
  the key lengths and the sum of the value lengths (and \<open>tsize\<close> is the exact size of all
  data).
\<close>

theorem kv_round_trip:
  assumes a: "add_all (KeyValue_new m ok memblock memsize (2 ^ i) (2 ^ j)) rs = Inr kv1"
    and f: "list_all (fits_int i j (max (max i j) 2)) rs"
  shows "\<exists>kv2 kv3 out.
     complete kv1 = Inr kv2 \<and> iterate kv2 = Inr (kv3, out) \<and>
     concat (map (map snd) out) = rs \<and>
     map length out = map (\<lambda>n. pg_nkey (pages kv2 n)) [0 ..< npage kv2] \<and>
     nkv kv2 = length rs \<and> ksize kv2 = keys_size rs \<and> vsize kv2 = values_size rs \<and>
     tsize kv2 = length rs * twolenbytes + keys_size rs + values_size rs"
proof -
  let ?l = "max (max i j) 2"
  from f have f': "\<forall>r \<in> set rs. fits_int i j ?l r" by (simp add: list_all_iff)
  from add_all_building [OF building_new f' a]
  obtain dn cur where b: "building kv1 i j ?l dn cur" and rs: "concat dn @ cur = rs"
    by auto
  define pgs where "pgs = dn @ [cur]"
  from complete_building [OF b] rs obtain kv2 where c: "complete kv1 = Inr kv2"
    and cd: "completed kv2 i j ?l pgs"
    and t: "nkv kv2 = length rs" "ksize kv2 = keys_size rs" "vsize kv2 = values_size rs"
      "tsize kv2 = length rs * twolenbytes + keys_size rs + values_size rs"
    unfolding pgs_def by auto
  from cd have np: "npage kv2 = length pgs"
    and pd: "\<And>n. n < length pgs \<Longrightarrow> pg_nkey (pages kv2 n) = length (pgs ! n)"
    by (simp_all add: completed_def page_desc_def)
  have "\<forall>n \<in> set [0 ..< length pgs]. n < length pgs" by simp
  from iterate_pages_completed [OF cd this] obtain kv3 out where
    it: "iterate_pages kv2 [0 ..< length pgs] = Inr (kv3, out)"
    and o: "map (map snd) out = map ((!) pgs) [0 ..< length pgs]"
    by blast
  from o have o': "map (map snd) out = pgs" by (simp only: map_nth)
  then have "map length (map (map snd) out) = map length pgs" by simp
  then have ml: "map length out = map length pgs" by (simp add: comp_def)
  have "map length pgs = map (\<lambda>n. pg_nkey (pages kv2 n)) [0 ..< npage kv2]"
    unfolding np by (rule nth_equalityI) (simp_all add: pd)
  with ml have pgc: "map length out = map (\<lambda>n. pg_nkey (pages kv2 n)) [0 ..< npage kv2]" by simp
  have "iterate kv2 = Inr (kv3, out)"
    using it by (simp add: iterate_def request_info_def np)
  moreover have "concat (map (map snd) out) = rs"
    using o' rs by (simp add: pgs_def)
  ultimately show ?thesis using c t pgc by blast
qed

text \<open>
  The hypotheses hold for three pairs added to an object with a page of 32 bytes, which
  holds two of them and is flushed once.
\<close>

lemma R3: "ROUNDUP A 3 = roundup A 4"
  using ROUNDUP_roundup [of A 2] by simp


lemma add_all_example: "\<exists>kv1. add_all (KeyValue_new zero_mem True 512 32 (2 ^ 2) (2 ^ 2)) example_pairs = Inr kv1 \<and> npage kv1 = 1 \<and> nkey kv1 = 1"
  by (simp add: example_pairs_def KeyValue_new_def init_page_def add.simps Let_def R3 roundup_def twolenbytes_def
      to_int32_def INTMAX_def write_page_def create_page_def file_write_def ALIGNFILE_def)


theorem kv_round_trip_witness:
  "list_all (fits_int 2 2 (max (max 2 2) 2)) example_pairs \<and>
   (\<exists>kv1 kv2 kv3 out.
     add_all (KeyValue_new zero_mem True 512 32 (2 ^ 2) (2 ^ 2)) example_pairs = Inr kv1 \<and>
     complete kv1 = Inr kv2 \<and> iterate kv2 = Inr (kv3, out) \<and>
     concat (map (map snd) out) = example_pairs \<and> npage kv2 = 2 \<and>
     nkv kv2 = 3 \<and> ksize kv2 = 4 \<and> vsize kv2 = 8 \<and> tsize kv2 = 36)"
proof -
  have f: "list_all (fits_int 2 2 (max (max 2 2) 2)) example_pairs"
    by (simp add: example_pairs_def fits_int_def twolenbytes_def)
  obtain kv1 where a: "add_all (KeyValue_new zero_mem True 512 32 (2 ^ 2) (2 ^ 2)) example_pairs = Inr kv1"
    and n: "npage kv1 = 1"
    using add_all_example by blast
  from kv_round_trip [OF a f] obtain kv2 kv3 out where
    r: "complete kv1 = Inr kv2" "iterate kv2 = Inr (kv3, out)" "concat (map (map snd) out) = example_pairs"
      "nkv kv2 = length example_pairs" "ksize kv2 = keys_size example_pairs" "vsize kv2 = values_size example_pairs"
      "tsize kv2 = length example_pairs * twolenbytes + keys_size example_pairs + values_size example_pairs"
    by blast
  have "npage kv2 = 2"
    using r(1) n by (auto simp: complete_def Let_def init_page_def set_totals_def create_page_def
        write_page_def file_write_def split: if_splits)
  moreover have "length example_pairs = 3" "keys_size example_pairs = 4" "values_size example_pairs = 8"
    by (simp_all add: example_pairs_def)
  ultimately show ?thesis using f a r by (auto simp: twolenbytes_def)
qed


lemma new_fields:
  "page (KeyValue_new m ok memblock memsize ka va) = memblock"
  "kalign (KeyValue_new m ok memblock memsize ka va) = ka"
  "valign (KeyValue_new m ok memblock memsize ka va) = va"
  "talign (KeyValue_new m ok memblock memsize ka va) = max (max ka va) 4"
  "pagesize (KeyValue_new m ok memblock memsize ka va) = memsize"
  "fopen_ok (KeyValue_new m ok memblock memsize ka va) = ok"
  by (auto simp: KeyValue_new_def init_page_def Let_def max_def)

lemma max_pow2: "max (max ((2::int) ^ i) (2 ^ j)) 4 = 2 ^ max (max i j) 2"
proof -
  have "max ((2::int) ^ i) (2 ^ j) = 2 ^ max i j"
    by (simp add: max_def)
  moreover have "max ((2::int) ^ k) 4 = 2 ^ max k 2" for k
    using power_increasing_iff [of "2::int" k 2] by (auto simp: max_def)
  ultimately show ?thesis by simp
qed

text \<open>
  Claim C4, as the code has it.  Take a fresh object whose alignments \<open>kalign\<close> and
  \<open>valign\<close> are powers of two and whose page starts at an address that is a multiple
  of \<open>talign\<close>, and a sequence of \<open>add\<close> calls none of which aborts (each pair small
  enough for its size to fit an \<open>int\<close>).  After \<open>complete\<close>, a full iteration
  succeeds, and for every pair it meets the key pointer is a multiple of \<open>kalign\<close>, the
  value pointer a multiple of \<open>valign\<close> and the start of the pair a multiple of \<open>talign\<close>,
  where \<open>talign\<close> is the maximum of \<open>kalign\<close>, \<open>valign\<close> and 4; and the file offset of every
  page is a multiple of \<open>ALIGNFILE\<close>, 512.
\<close>

theorem kv_alignment:
  assumes a: "add_all (KeyValue_new m ok memblock memsize (2 ^ i) (2 ^ j)) rs = Inr kv1"
    and f: "list_all (fits_int i j l) rs"
    and l: "l = max (max i j) 2"
    and base: "2 ^ l dvd memblock"
  shows "\<exists>kv2 kv3 out.
     complete kv1 = Inr kv2 \<and> iterate kv2 = Inr (kv3, out) \<and>
     kalign kv2 = 2 ^ i \<and> valign kv2 = 2 ^ j \<and>
     talign kv2 = max (max (kalign kv2) (valign kv2)) 4 \<and> talign kv2 = 2 ^ l \<and>
     list_all (list_all (\<lambda>x. entry_aligned (2 ^ i) (2 ^ j) (2 ^ l) (fst x))) out \<and>
     list_all (\<lambda>n. ALIGNFILE dvd pg_fileoffset (pages kv2 n)) [0 ..< npage kv2]"
proof -
  let ?K = "KeyValue_new m ok memblock memsize (2 ^ i) (2 ^ j)"
  from f have f': "\<forall>r \<in> set rs. fits_int i j l r" by (simp add: list_all_iff)
  have b0: "building ?K i j l [] []" unfolding l by (rule building_new)
  from add_all_building [OF b0 f' a]
  obtain dn cur where b: "building kv1 i j l dn cur" by auto
  have s1: "same_frame ?K kv1" by (rule add_all_same_frame [OF b0 f' a])
  from complete_building [OF b] obtain kv2 where c: "complete kv1 = Inr kv2"
    and cd: "completed kv2 i j l (dn @ [cur])"
    by auto
  have s2: "same_frame ?K kv2" using s1 complete_frame [OF c] by (rule same_frame_trans)
  then have fr: "page kv2 = memblock" "kalign kv2 = 2 ^ i" "valign kv2 = 2 ^ j"
    "talign kv2 = max (max (2 ^ i) (2 ^ j)) 4"
    by (simp_all add: same_frame_def new_fields)
  from cd have m: "kalignm1 kv2 = 2 ^ i - 1" "valignm1 kv2 = 2 ^ j - 1" "talignm1 kv2 = 2 ^ l - 1"
    and np: "npage kv2 = length (dn @ [cur])"
    by (simp_all add: completed_def masks_def)
  have "\<forall>n \<in> set [0 ..< length (dn @ [cur])]. n < length (dn @ [cur])" by simp
  from iterate_pages_completed [OF cd this] obtain kv3 out where
    it: "iterate_pages kv2 [0 ..< length (dn @ [cur])] = Inr (kv3, out)"
    by blast
  have al: "list_all (list_all (\<lambda>x. entry_aligned (2 ^ i) (2 ^ j) (2 ^ l) (fst x))) out"
    using it m by (rule iterate_pages_aligned) (simp add: fr base)
  have off: "list_all (\<lambda>n. ALIGNFILE dvd pg_fileoffset (pages kv2 n)) [0 ..< npage kv2]"
    using completed_offsets [OF cd] by (simp add: list_all_iff)
  have "iterate kv2 = Inr (kv3, out)"
    using it by (simp only: iterate_def request_info_def np fst_conv)
  moreover have "talign kv2 = 2 ^ l"
    unfolding fr l by (rule max_pow2)
  ultimately show ?thesis using c fr al off by auto
qed

lemma R1023: "ROUNDUP A 1023 = roundup A 1024"
  using ROUNDUP_roundup [of A 10] by simp

theorem kv_alignment_witness:
  "list_all (fits_int 2 2 2) example_pairs \<and> 2 = max (max 2 2) (2::nat) \<and> (2::nat) ^ 2 dvd 512 \<and>
   (\<exists>kv1 kv2 kv3 out.
     add_all (KeyValue_new zero_mem True 512 32 (2 ^ 2) (2 ^ 2)) example_pairs = Inr kv1 \<and>
     complete kv1 = Inr kv2 \<and> iterate kv2 = Inr (kv3, out) \<and> talign kv2 = 4 \<and>
     list_all (list_all (\<lambda>x. entry_aligned 4 4 4 (fst x))) out \<and>
     list_all (\<lambda>n. ALIGNFILE dvd pg_fileoffset (pages kv2 n)) [0 ..< npage kv2])"
proof -
  have f: "list_all (fits_int 2 2 2) example_pairs"
    by (simp add: example_pairs_def fits_int_def twolenbytes_def)
  have l: "2 = max (max 2 2) (2::nat)" by simp
  have d: "(2::nat) ^ 2 dvd 512" by simp
  obtain kv1 where a: "add_all (KeyValue_new zero_mem True 512 32 (2 ^ 2) (2 ^ 2)) example_pairs = Inr kv1"
    using add_all_example by blast
  from kv_alignment [OF a f l d] f l d a show ?thesis by auto
qed

text \<open>
  Claim C4 as stated holds for every object.  The source rounds absolute addresses, so
  the first pair of a page starts where the page starts, aligned or not: with
  \<open>kalign = 1024\<close> and a page at address 512 (a multiple of the 512 bytes to which the
  driver aligns its memory), the only pair of the object starts at 512, which is not a
  multiple of \<open>talign = 1024\<close>.
\<close>

theorem kv_alignment_counterexample:
  "\<exists>kv1 kv2 kv3 out.
     add_all (KeyValue_new zero_mem True 512 65536 1024 4) [([1], [2])] = Inr kv1 \<and>
     complete kv1 = Inr kv2 \<and> iterate kv2 = Inr (kv3, out) \<and> talign kv2 = 1024 \<and>
     map (map fst) out = [[(512, 1024, 1, 1028, 1)]] \<and> \<not> entry_aligned 1024 4 1024 (512, 1024, 1, 1028, 1)"
  by (simp add: KeyValue_new_def init_page_def add.simps Let_def R3 R1023 roundup_def twolenbytes_def
      to_int32_def INTMAX_def complete_def create_page_def set_totals_def iterate_def request_info_def
      request_page_def entry_aligned_def load_int_def store_int_def store_bytes_def ALIGNFILE_def)

text \<open>
  Claim C3, as the code has it.  Take an object reached from a fresh one by \<open>add\<close> calls
  that did not abort, with power-of-two alignments, a page that starts on a multiple of
  \<open>talign\<close> and a spill file that can be opened, and a pair whose size fits an \<open>int\<close>.
  Let \<open>S\<close> be the packed size of the pair.
  \<^item> If \<open>S\<close> exceeds the page size, \<open>add\<close> aborts with the error
    \<open>Single key/value pair exceeds page size\<close>.
  \<^item> Otherwise \<open>add\<close> succeeds, also when \<open>S\<close> is exactly the page size.  If the pair
    fits behind the pairs of the in-memory page and the page holds fewer than \<open>INTMAX\<close>
    pairs, it is appended there.  If not, the page is flushed first: its descriptor is
    appended to the page list, its bytes are in the spill file at the offset the descriptor
    gives, and the pair is the only one of the emptied page.
\<close>

theorem add_page_boundary:
  assumes a: "add_all (KeyValue_new m True memblock memsize (2 ^ i) (2 ^ j)) rs = Inr kv"
    and f: "list_all (fits_int i j l) rs"
    and l: "l = max (max i j) 2"
    and base: "2 ^ l dvd memblock"
    and fr: "fits_int i j l (key, val)"
    and S: "S = packed_size (2 ^ i) (2 ^ j) (2 ^ l) (length key) (length val)"
  shows "(memsize < S \<longrightarrow>
           add kv key val = Inl (ErrorOne ''Single key/value pair exceeds page size'')) \<and>
         (S \<le> memsize \<longrightarrow>
           (\<exists>kv'. add kv key val = Inr kv' \<and>
              (if alignsize kv + S \<le> memsize \<and> nkey kv \<noteq> INTMAX
               then npage kv' = npage kv \<and> pages kv' = pages kv \<and> fdata kv' = fdata kv \<and>
                    nkey kv' = nkey kv + 1 \<and> alignsize kv' = alignsize kv + S
               else npage kv' = npage kv + 1 \<and>
                    pg_nkey (pages kv' (npage kv)) = nkey kv \<and>
                    pg_alignsize (pages kv' (npage kv)) = alignsize kv \<and>
                    (\<forall>a < alignsize kv.
                        fdata kv' (pg_fileoffset (pages kv' (npage kv)) + a) = mem kv (page kv + a)) \<and>
                    nkey kv' = 1 \<and> alignsize kv' = S)))"
proof -
  let ?K = "KeyValue_new m True memblock memsize (2 ^ i) (2 ^ j)"
  let ?r = "(key, val)"
  from f have f': "\<forall>r \<in> set rs. fits_int i j l r" by (simp add: list_all_iff)
  have il: "i \<le> l" "j \<le> l" by (simp_all add: l)
  have b0: "building ?K i j l [] []" unfolding l by (rule building_new)
  from add_all_building [OF b0 f' a]
  obtain dn cur where b: "building kv i j l dn cur" by auto
  have "same_frame ?K kv" by (rule add_all_same_frame [OF b0 f' a])
  then have fr0: "page kv = memblock" "pagesize kv = memsize" "fopen_ok kv"
    by (simp_all add: same_frame_def new_fields)
  note mk = building_masks [OF b]
  then have m: "kalignm1 kv = 2 ^ i - 1" "valignm1 kv = 2 ^ j - 1" "talignm1 kv = 2 ^ l - 1"
    by (simp_all add: masks_def)
  from b have e: "enc (mem kv) (2 ^ i - 1) (2 ^ j - 1) (2 ^ l - 1) (page kv) cur (page kv + alignsize kv)"
    and nk: "nkey kv = length cur" and fpv: "fp kv \<noteq> Some RB"
    by (auto simp: building_def m)
  have pos: "2 ^ l dvd page kv + alignsize kv"
    using enc_aligned_end [OF _ e] base by (simp add: fr0)
  have ks: "kvsize kv ?r = S"
    unfolding kvsize_def m S using nptr_packed [OF il pos] by simp
  have nk0: "alignsize kv = 0 \<Longrightarrow> nkey kv = 0"
    using enc_size_ge [OF e] by (simp add: nk twolenbytes_def)
  note ax = add_exact [OF mk fr, simplified fst_conv snd_conv ks fr0]
  show ?thesis
  proof (cases "alignsize kv + S \<le> memsize \<and> nkey kv \<noteq> INTMAX")
    case True
    then have "add kv key val = Inr (kv\<lparr>mem := put (mem kv) (kalignm1 kv) (valignm1 kv) (memblock + alignsize kv) ?r,
                      nkey := nkey kv + 1,
                      keysize := keysize kv + length key,
                      valuesize := valuesize kv + length val,
                      alignsize := alignsize kv + S\<rparr>)"
      unfolding ax by auto
    then show ?thesis using True by auto
  next
    case False
    then have cond: "memsize < alignsize kv + S \<or> nkey kv = INTMAX" by auto
    from flush_explicit [of kv] fr0 fpv obtain kv1 where
      w: "write_page (create_page kv) = Inr kv1" and
      k1: "npage kv1 = npage kv" "pg_nkey (pages kv1 (npage kv)) = nkey kv"
        "pg_alignsize (pages kv1 (npage kv)) = alignsize kv"
        "\<forall>a < alignsize kv. fdata kv1 (pg_fileoffset (pages kv1 (npage kv)) + a) = mem kv (page kv + a)"
      by auto
    let ?kv2 = "init_page (kv1\<lparr>npage := npage kv1 + 1\<rparr>)"
    have b2: "building ?kv2 i j l (dn @ [cur]) []"
      by (rule building_flush [OF b w])
    have fr2: "page ?kv2 = memblock" "pagesize ?kv2 = memsize" "alignsize ?kv2 = 0" "nkey ?kv2 = 0"
      using flush_frame [OF w] by (simp_all add: same_frame_def fr0 init_page_def)
    have m2: "kalignm1 ?kv2 = 2 ^ i - 1" "valignm1 ?kv2 = 2 ^ j - 1" "talignm1 ?kv2 = 2 ^ l - 1"
      using building_masks [OF b2] by (simp_all add: masks_def)
    have ks2: "kvsize ?kv2 ?r = S"
      unfolding kvsize_def m2 S fr2 using nptr_packed [OF il, of memblock] base by simp
    note ax2 = add_exact [OF building_masks [OF b2] fr, simplified fst_conv snd_conv ks2 fr2]
    show ?thesis
    proof (cases "alignsize kv = 0")
      case True
      with nk0 cond have big: "memsize < S" by (simp add: INTMAX_def)
      then show ?thesis using True cond unfolding ax by simp
    next
      case nz: False
      show ?thesis
      proof (cases "memsize < S")
        case True
        then have "add ?kv2 key val = Inl (ErrorOne ''Single key/value pair exceeds page size'')"
          unfolding ax2 by simp
        then show ?thesis using True cond nz w unfolding ax by simp
      next
        case small: False
        then have "add ?kv2 key val = Inr (?kv2\<lparr>mem := put (mem ?kv2) (kalignm1 ?kv2) (valignm1 ?kv2) (memblock + 0) ?r,
                      nkey := 0 + 1,
                      keysize := keysize ?kv2 + length key,
                      valuesize := valuesize ?kv2 + length val,
                      alignsize := 0 + S\<rparr>)"
          unfolding ax2 by (simp add: INTMAX_def)
        then have "add kv key val = Inr (?kv2\<lparr>mem := put (mem ?kv2) (kalignm1 ?kv2) (valignm1 ?kv2) (memblock + 0) ?r,
                      nkey := 0 + 1,
                      keysize := keysize ?kv2 + length key,
                      valuesize := valuesize ?kv2 + length val,
                      alignsize := 0 + S\<rparr>)"
          using cond nz w unfolding ax by simp
        then show ?thesis using small False k1 by (auto simp: init_page_def)
      qed
    qed
  qed
qed

text \<open>An instance: a pair of packed size 32 added to a non-empty page of 32 bytes.\<close>

lemma add_all_example_state:
  "\<exists>kv. add_all (KeyValue_new zero_mem True 512 32 (2 ^ 2) (2 ^ 2)) example_pairs = Inr kv \<and>
     npage kv = 1 \<and> nkey kv = 1 \<and> alignsize kv = 16"
  by (simp add: example_pairs_def KeyValue_new_def init_page_def add.simps Let_def R3 roundup_def
      twolenbytes_def to_int32_def INTMAX_def write_page_def create_page_def file_write_def
      ALIGNFILE_def)


theorem add_page_boundary_witness:
  "list_all (fits_int 2 2 2) example_pairs \<and> 2 = max (max 2 2) (2::nat) \<and> (2::nat) ^ 2 dvd 512 \<and>
   fits_int 2 2 2 (replicate 20 7, replicate 4 9) \<and>
   32 = packed_size (2 ^ 2) (2 ^ 2) (2 ^ 2) (length (replicate 20 (7::byte))) (length (replicate 4 (9::byte))) \<and>
   (\<exists>kv kv'.
     add_all (KeyValue_new zero_mem True 512 32 (2 ^ 2) (2 ^ 2)) example_pairs = Inr kv \<and>
     add kv (replicate 20 7) (replicate 4 9) = Inr kv' \<and>
     npage kv' = npage kv + 1 \<and> pg_nkey (pages kv' (npage kv)) = nkey kv \<and>
     nkey kv' = 1 \<and> alignsize kv' = 32)"
proof -
  have f: "list_all (fits_int 2 2 2) example_pairs"
    by (simp add: example_pairs_def fits_int_def twolenbytes_def)
  have l: "2 = max (max 2 2) (2::nat)" by simp
  have d: "(2::nat) ^ 2 dvd 512" by simp
  have fr: "fits_int 2 2 2 (replicate 20 7, replicate 4 9)"
    by (simp add: fits_int_def twolenbytes_def)
  have S: "32 = packed_size (2 ^ 2) (2 ^ 2) (2 ^ 2) (length (replicate 20 (7::byte))) (length (replicate 4 (9::byte)))"
    by (simp add: packed_size_def roundup_def twolenbytes_def)
  obtain kv where a: "add_all (KeyValue_new zero_mem True 512 32 (2 ^ 2) (2 ^ 2)) example_pairs = Inr kv"
    and st: "alignsize kv = 16"
    using add_all_example_state by blast
  from add_page_boundary [OF a f l d fr S] st
  obtain kv' where "add kv (replicate 20 7) (replicate 4 9) = Inr kv'"
     "npage kv' = npage kv + 1" "pg_nkey (pages kv' (npage kv)) = nkey kv"
     "nkey kv' = 1" "alignsize kv' = 32"
    by auto
  with f l d fr S a show ?thesis by blast
qed

text \<open>
  Claim C3 as stated makes the page size the only reason for \<open>add\<close> to abort.  The source
  has a second guard, tested first: \<open>if (kvbytes < 0)\<close>, with the error
  \<open>Single key/value pair exceeds int size\<close>.  On a page of \<open>2^32\<close> bytes, a key of
  \<open>2^31 - 1\<close> bytes with an empty value has packed size \<open>2^31 + 8\<close>, which fits the page,
  and \<open>add\<close> aborts.
\<close>

theorem add_int_size_counterexample:
  "add (KeyValue_new zero_mem True 512 4294967296 4 4) (replicate 2147483647 0) [] =
     Inl (ErrorOne ''Single key/value pair exceeds int size'') \<and>
   packed_size 4 4 4 2147483647 0 \<le> 4294967296"
  by (simp add: KeyValue_new_def init_page_def add.simps Let_def R3 roundup_def
      twolenbytes_def to_int32_def packed_size_def)

text \<open>
  The guard tests the sign of the truncated size only.  A pair whose size reaches \<open>2^32\<close>
  passes it: with a key and a value of \<open>2^31 - 1\<close> bytes each, \<open>kvbytes\<close> is 8.
\<close>

lemma add_int_wrap_example:
  "\<exists>kv'. add (KeyValue_new zero_mem True 512 67108864 4 4)
            (replicate 2147483647 0) (replicate 2147483647 0) = Inr kv' \<and>
     nkey kv' = 1 \<and> alignsize kv' = 8 \<and>
     packed_size 4 4 4 2147483647 2147483647 = 4294967304"
  by (simp add: KeyValue_new_def init_page_def add.simps Let_def R3 roundup_def
      twolenbytes_def to_int32_def packed_size_def INTMAX_def)

section \<open>Operators called in a wrong state\<close>

lemma each_rank_isl: "x \<in> set xs \<Longrightarrow> isl (f x) \<Longrightarrow> isl (each_rank f xs)"
  by (induction xs) (auto split: sum.splits)

lemma spmd_isl: "x \<in> set w \<Longrightarrow> isl (f x) \<Longrightarrow> isl (spmd f cnt w)"
  using each_rank_isl [of x w f] by (auto simp: spmd_def split: sum.splits)

lemma list_ex_mem: "x \<in> set xs \<Longrightarrow> P x \<Longrightarrow> list_ex P xs"
  by (auto simp: list_ex_iff)

lemma bind_Inr:
  "(case x of Inl e \<Rightarrow> Inl e | Inr y \<Rightarrow> g y) = Inr r \<longleftrightarrow> (\<exists>y. x = Inr y \<and> g y = Inr r)"
  by (cases x) auto

lemma allocate_keeps:
  "allocate mr = Inr mr1 \<Longrightarrow> nprocs mr1 = nprocs mr \<and> mapstyle mr1 = mapstyle mr \<and> me mr1 = me mr"
  by (auto simp: allocate_def Let_def split: if_splits)

lemma memswap_keeps:
  "nprocs (memswap x) = nprocs x \<and> mapstyle (memswap x) = mapstyle x \<and> me (memswap x) = me x"
  by (simp add: memswap_def)

lemma map_rank_tasks:
  assumes "map_rank handed nmap appmap addflag mr = Inr r"
  shows "\<exists>mr3 tasks. nprocs mr3 = nprocs mr \<and> mapstyle mr3 = mapstyle mr \<and> me mr3 = me mr \<and>
           map_tasks handed nmap mr3 = Inr tasks"
proof -
  define start where "start mr1 =
     (if addflag = 0 then Inr (memswap (mr1\<lparr>mr_kmv := None\<rparr>), fresh_kv (mr1\<lparr>mr_kmv := None\<rparr>))
      else (case mr_kv (mr1\<lparr>mr_kmv := None\<rparr>) of
              None \<Rightarrow> Inr (memswap (mr1\<lparr>mr_kmv := None\<rparr>), fresh_kv (mr1\<lparr>mr_kmv := None\<rparr>))
            | Some kv \<Rightarrow>
                (case append kv of
                   Inl e \<Rightarrow> Inl e
                 | Inr kv1 \<Rightarrow> Inr (mr1\<lparr>mr_kmv := None\<rparr>, kv1))))" for mr1
  have st: "start mr1 = Inr (mr3, kv0) \<Longrightarrow>
            nprocs mr3 = nprocs mr1 \<and> mapstyle mr3 = mapstyle mr1 \<and> me mr3 = me mr1" for mr1 mr3 kv0
    using memswap_keeps [of "mr1\<lparr>mr_kmv := None\<rparr>"]
    by (auto simp: start_def split: if_splits option.splits sum.splits)
  from assms obtain mr1 p tasks where 1: "(if allocated mr then Inr mr else allocate mr) = Inr mr1"
    and 2: "start mr1 = Inr p" and 3: "map_tasks handed nmap (fst p) = Inr tasks"
    unfolding map_rank_def Let_def start_def [symmetric] bind_Inr
    by (auto simp: bind_Inr split: prod.splits)
  have k1: "nprocs mr1 = nprocs mr \<and> mapstyle mr1 = mapstyle mr \<and> me mr1 = me mr"
    using 1 allocate_keeps [of mr mr1] by (auto split: if_splits)
  from st [of mr1 "fst p" "snd p"] 2 k1 3 show ?thesis by auto
qed

text \<open>
  Claim C7, as the code has it.  \<open>mr\<close> is the state of a rank of the group \<open>w\<close>, and
  \<open>other\<close> the state, on that rank, of the object passed to \<open>add\<close>.
  Without a KeyValue on the rank, \<open>convert\<close>, \<open>aggregate\<close>, \<open>collapse\<close>, \<open>clone\<close>,
  \<open>collate\<close>, \<open>compress\<close>, \<open>gather\<close>, \<open>sort_keys\<close>, \<open>sort_values\<close> and \<open>add\<close> raise
  their \<open>Cannot ... without KeyValue\<close> error on it, and the call of the group ends in an
  error.  Without a KeyMultiValue the same holds for \<open>reduce\<close> and \<open>sort_multivalues\<close>.
  \<open>add\<close> raises an error when the object passed has no KeyValue and when it is the
  object itself.  \<open>map\<close> raises \<open>Invalid mapstyle setting\<close> for a \<open>mapstyle\<close> other than
  0, 1 and 2 when the group has more than one rank (or none): the test of \<open>mapstyle\<close>
  comes after the test \<open>nprocs == 1\<close>.
\<close>

theorem precondition_errors:
  assumes "mr \<in> set w" and "(mr, other) \<in> set (zip w others)"
  shows
   "(mr_kv mr = None \<longrightarrow>
       convert_rank kc mr = Inl (ErrorAll ''Cannot convert without KeyValue'')
     \<and> isl (convert kc w)
     \<and> aggregate sh h w = Inl (ErrorAll ''Cannot aggregate without KeyValue'')
     \<and> collapse_rank kl key mr = Inl (ErrorAll ''Cannot collapse without KeyValue'')
     \<and> isl (collapse kl key w)
     \<and> clone_rank kn mr = Inl (ErrorAll ''Cannot clone without KeyValue'')
     \<and> isl (clone kn w)
     \<and> collate sh kc h w = Inl (ErrorAll ''Cannot collate without KeyValue'')
     \<and> compress_rank kc app mr = Inl (ErrorAll ''Cannot compress without KeyValue'')
     \<and> isl (compress kc app w)
     \<and> gather mv numprocs w = Inl (ErrorAll ''Cannot gather without KeyValue'')
     \<and> sort_keys_rank qs pg ps ab cmp mr = Inl (ErrorAll ''Cannot sort_keys without KeyValue'')
     \<and> isl (sort_keys qs pg ps ab cmp w)
     \<and> sort_values_rank qs pg ps ab cmp mr = Inl (ErrorAll ''Cannot sort_values without KeyValue'')
     \<and> isl (sort_values qs pg ps ab cmp w)
     \<and> add_rank kv_add (mr, other) = Inl (ErrorAll ''Cannot add without KeyValue'')
     \<and> isl (add_mr kv_add others w))
  \<and> (mr_kmv mr = None \<longrightarrow>
       reduce_rank app mr = Inl (ErrorAll ''Cannot reduce without KeyMultiValue'')
     \<and> isl (reduce app w)
     \<and> sort_multivalues_rank ms mr = Inl (ErrorAll ''Cannot sort_multivalues without KeyMultiValue'')
     \<and> isl (sort_multivalues ms w))
  \<and> (mr_kv mr \<noteq> None \<and> mr_kv other = None \<longrightarrow>
       add_rank kv_add (mr, other) =
         Inl (ErrorAll ''MapReduce passed to add() does not have KeyValue pairs'')
     \<and> isl (add_mr kv_add others w))
  \<and> (mr_kv mr \<noteq> None \<and> mr_kv other \<noteq> None \<and> mr_instance other = mr_instance mr \<longrightarrow>
       add_rank kv_add (mr, other) = Inl (ErrorAll ''Cannot add to self'')
     \<and> isl (add_mr kv_add others w))
  \<and> (nprocs mr \<noteq> 1 \<and> mapstyle mr \<notin> {0, 1, 2} \<longrightarrow>
       (\<forall>mr'. nprocs mr' = nprocs mr \<and> mapstyle mr' = mapstyle mr \<longrightarrow>
               map_tasks handed nmap mr' = Inl (ErrorAll ''Invalid mapstyle setting''))
     \<and> isl (map_rank handed nmap appmap addflag mr)
     \<and> isl (map_mr handed nmap appmap addflag w))"
proof -
  have nokv: "list_ex (\<lambda>mr. mr_kv mr = None) w" if "mr_kv mr = None"
    using list_ex_mem [OF assms(1), of "\<lambda>mr. mr_kv mr = None"] that by simp
  have A: "mr_kv mr = None \<Longrightarrow> convert_rank kc mr = Inl (ErrorAll ''Cannot convert without KeyValue'')"
    "mr_kv mr = None \<Longrightarrow> collapse_rank kl key mr = Inl (ErrorAll ''Cannot collapse without KeyValue'')"
    "mr_kv mr = None \<Longrightarrow> clone_rank kn mr = Inl (ErrorAll ''Cannot clone without KeyValue'')"
    "mr_kv mr = None \<Longrightarrow> compress_rank kc app mr = Inl (ErrorAll ''Cannot compress without KeyValue'')"
    "mr_kv mr = None \<Longrightarrow> sort_keys_rank qs pg ps ab cmp mr = Inl (ErrorAll ''Cannot sort_keys without KeyValue'')"
    "mr_kv mr = None \<Longrightarrow> sort_values_rank qs pg ps ab cmp mr = Inl (ErrorAll ''Cannot sort_values without KeyValue'')"
    "mr_kv mr = None \<Longrightarrow> add_rank kv_add (mr, other) = Inl (ErrorAll ''Cannot add without KeyValue'')"
    by (simp_all add: convert_rank_def collapse_rank_def clone_rank_def compress_rank_def
          sort_keys_rank_def sort_values_rank_def add_rank_def)
  have B: "mr_kv mr = None \<Longrightarrow> aggregate sh h w = Inl (ErrorAll ''Cannot aggregate without KeyValue'')"
    "mr_kv mr = None \<Longrightarrow> collate sh kc h w = Inl (ErrorAll ''Cannot collate without KeyValue'')"
    "mr_kv mr = None \<Longrightarrow> gather mv numprocs w = Inl (ErrorAll ''Cannot gather without KeyValue'')"
    using nokv by (simp_all add: aggregate_def collate_def gather_def)
  have C: "mr_kmv mr = None \<Longrightarrow> reduce_rank app mr = Inl (ErrorAll ''Cannot reduce without KeyMultiValue'')"
    "mr_kmv mr = None \<Longrightarrow> sort_multivalues_rank ms mr = Inl (ErrorAll ''Cannot sort_multivalues without KeyMultiValue'')"
    by (simp_all add: reduce_rank_def sort_multivalues_rank_def)
  have D: "mr_kv mr \<noteq> None \<and> mr_kv other = None \<Longrightarrow> add_rank kv_add (mr, other) =
         Inl (ErrorAll ''MapReduce passed to add() does not have KeyValue pairs'')"
    "mr_kv mr \<noteq> None \<and> mr_kv other \<noteq> None \<and> mr_instance other = mr_instance mr \<Longrightarrow>
       add_rank kv_add (mr, other) = Inl (ErrorAll ''Cannot add to self'')"
    by (auto simp: add_rank_def)
  have addg: "isl (add_rank kv_add (mr, other)) \<Longrightarrow> isl (add_mr kv_add others w)"
    using each_rank_isl [OF assms(2), of "add_rank kv_add"]
    by (auto simp: add_mr_def split: sum.splits)
  have E: "map_tasks handed nmap mr' = Inl (ErrorAll ''Invalid mapstyle setting'')"
    if "nprocs mr \<noteq> 1 \<and> mapstyle mr \<notin> {0, 1, 2}" "nprocs mr' = nprocs mr \<and> mapstyle mr' = mapstyle mr" for mr'
    using that by (simp add: map_tasks_def)
  have F: "isl (map_rank handed nmap appmap addflag mr)" if h: "nprocs mr \<noteq> 1 \<and> mapstyle mr \<notin> {0, 1, 2}"
  proof (cases "map_rank handed nmap appmap addflag mr")
    case (Inr r)
    from map_rank_tasks [OF Inr] obtain mr3 tasks where
      "nprocs mr3 = nprocs mr \<and> mapstyle mr3 = mapstyle mr" "map_tasks handed nmap mr3 = Inr tasks"
      by blast
    with E [OF h, of mr3] show ?thesis by simp
  qed simp
  have G: "isl (f mr) \<Longrightarrow> isl (spmd f cnt w)" for f cnt
    by (rule spmd_isl [OF assms(1)])
  show ?thesis
    apply (intro conjI impI allI)
    using A B C D E F
    by (simp_all add: convert_def collapse_def clone_def compress_def sort_keys_def sort_values_def
          reduce_def sort_multivalues_def map_mr_def G addg)
qed

text \<open>
  The theorem on objects as the constructor leaves them (no KeyValue, no KeyMultiValue),
  on an object that holds an empty KeyValue, and on a rank of a group of two with
  \<open>mapstyle = 3\<close>.
\<close>

theorem precondition_errors_witness:
  "convert_rank (\<lambda>mr kv. Inl (ErrorAll [])) (MapReduce_new 0 0 1 0)
     = Inl (ErrorAll ''Cannot convert without KeyValue'')
   \<and> gather (\<lambda>n w. Inl (ErrorAll [])) 1 [MapReduce_new 0 0 1 0]
     = Inl (ErrorAll ''Cannot gather without KeyValue'')
   \<and> reduce_rank (\<lambda>r later kv. Inr kv) (MapReduce_new 0 0 1 0)
     = Inl (ErrorAll ''Cannot reduce without KeyMultiValue'')
   \<and> sort_multivalues_rank (\<lambda>vs. vs) (MapReduce_new 0 0 1 0)
     = Inl (ErrorAll ''Cannot sort_multivalues without KeyMultiValue'')
   \<and> add_rank (\<lambda>kv okv. Inr kv)
        ((MapReduce_new 0 0 1 0)\<lparr>mr_kv := Some (KeyValue_new zero_mem True 0 1024 4 4)\<rparr>,
         MapReduce_new 1 0 1 0)
     = Inl (ErrorAll ''MapReduce passed to add() does not have KeyValue pairs'')
   \<and> add_rank (\<lambda>kv okv. Inr kv)
        ((MapReduce_new 0 0 1 0)\<lparr>mr_kv := Some (KeyValue_new zero_mem True 0 1024 4 4)\<rparr>,
         (MapReduce_new 0 0 1 0)\<lparr>mr_kv := Some (KeyValue_new zero_mem True 0 1024 4 4)\<rparr>)
     = Inl (ErrorAll ''Cannot add to self'')
   \<and> isl (map_mr (\<lambda>r. []) 4 (\<lambda>itask kv. Inr kv) 0
            [(MapReduce_new 0 0 2 0)\<lparr>mapstyle := 3\<rparr>, (MapReduce_new 0 1 2 0)\<lparr>mapstyle := 3\<rparr>])"
  using precondition_errors
          [where mr = "MapReduce_new 0 0 1 0" and w = "[MapReduce_new 0 0 1 0]"
             and other = "MapReduce_new 0 0 1 0" and others = "[MapReduce_new 0 0 1 0]"
             and kc = "\<lambda>mr kv. Inl (ErrorAll [])" and mv = "\<lambda>n w. Inl (ErrorAll [])"
             and numprocs = 1 and app = "\<lambda>r later kv. Inr kv" and ms = "\<lambda>vs. vs"]
        precondition_errors
          [where mr = "(MapReduce_new 0 0 1 0)\<lparr>mr_kv := Some (KeyValue_new zero_mem True 0 1024 4 4)\<rparr>"
             and w = "[(MapReduce_new 0 0 1 0)\<lparr>mr_kv := Some (KeyValue_new zero_mem True 0 1024 4 4)\<rparr>]"
             and other = "MapReduce_new 1 0 1 0" and others = "[MapReduce_new 1 0 1 0]"
             and kv_add = "\<lambda>kv okv. Inr kv"]
        precondition_errors
          [where mr = "(MapReduce_new 0 0 1 0)\<lparr>mr_kv := Some (KeyValue_new zero_mem True 0 1024 4 4)\<rparr>"
             and w = "[(MapReduce_new 0 0 1 0)\<lparr>mr_kv := Some (KeyValue_new zero_mem True 0 1024 4 4)\<rparr>]"
             and other = "(MapReduce_new 0 0 1 0)\<lparr>mr_kv := Some (KeyValue_new zero_mem True 0 1024 4 4)\<rparr>"
             and others = "[(MapReduce_new 0 0 1 0)\<lparr>mr_kv := Some (KeyValue_new zero_mem True 0 1024 4 4)\<rparr>]"
             and kv_add = "\<lambda>kv okv. Inr kv"]
        precondition_errors
          [where mr = "(MapReduce_new 0 0 2 0)\<lparr>mapstyle := 3\<rparr>"
             and w = "[(MapReduce_new 0 0 2 0)\<lparr>mapstyle := 3\<rparr>, (MapReduce_new 0 1 2 0)\<lparr>mapstyle := 3\<rparr>]"
             and other = "(MapReduce_new 0 0 2 0)\<lparr>mapstyle := 3\<rparr>"
             and others = "[(MapReduce_new 0 0 2 0)\<lparr>mapstyle := 3\<rparr>]"
             and handed = "\<lambda>r. []" and nmap = 4 and appmap = "\<lambda>itask kv. Inr kv" and addflag = 0]
  by (simp add: MapReduce_new_def)

text \<open>
  Claim C7 as stated has \<open>map\<close> fail for every \<open>mapstyle\<close> other than 0, 1 and 2.  With
  a single rank and \<open>mapstyle = 3\<close>, \<open>map\<close> of two tasks runs them and returns the count.
\<close>

lemma pow2_loop_4: "pow2_loop 0 4 = 4"
  by (simp add: pow2_loop.simps [of 0] pow2_loop.simps [of "Suc 0"] pow2_loop.simps [of 2]
        pow2_loop.simps [of "Suc (Suc 0)"])

theorem map_bad_mapstyle_counterexample:
  "\<exists>r. map_mr (\<lambda>r. []) 2 (\<lambda>itask kv. Inr kv) 0 [(MapReduce_new 0 0 1 0)\<lparr>mapstyle := 3\<rparr>] = Inr r
       \<and> map snd r = [0]"
  by (simp add: map_mr_def spmd_def map_rank_def MapReduce_new_def allocate_def MBYTES_def
        ALIGNKV_def pow2_loop_4 Let_def memswap_def fresh_kv_def map_tasks_def return_count_def
        allreduce_sum_def kv_count_def stats_def
        complete_def KeyValue_new_def create_page_def init_page_def set_totals_def
        roundup_def twolenbytes_def to_int32_id upt_rec [of 0] upt_rec [of "Suc 0"])

section \<open>What the operators return\<close>

lemma each_rank_Inr: "each_rank f w = Inr w' \<Longrightarrow> list_all2 (\<lambda>a b. f a = Inr b) w w'"
  by (induction w arbitrary: w') (auto split: sum.splits)

lemma each_rank_all_aux:
  "each_rank f w = Inr w' \<Longrightarrow> (\<forall>a\<in>set w. \<forall>b. f a = Inr b \<longrightarrow> P b) \<Longrightarrow> list_all P w'"
  by (induction w arbitrary: w') (auto split: sum.splits)

lemma each_rank_all:
  assumes "\<And>a b. a \<in> set w \<Longrightarrow> f a = Inr b \<Longrightarrow> P b" and "each_rank f w = Inr w'"
  shows "list_all P w'"
  using each_rank_all_aux [OF assms(2), of P] assms(1) by blast

lemma to_int32_nonneg: "0 \<le> n \<Longrightarrow> n < 2 ^ 31 \<Longrightarrow> to_int32 n = n"
  by (rule to_int32_id) simp_all

lemma each_rank_length: "each_rank f w = Inr w' \<Longrightarrow> length w' = length w"
  by (induction w arbitrary: w') (auto split: sum.splits)

lemma kv_count_nonneg: "0 \<le> kv_count mr"
  by (simp add: kv_count_def split: option.splits)

lemma kmv_count_nonneg: "0 \<le> kmv_count mr"
  by (simp add: kmv_count_def split: option.splits)

lemma total_return_count: "total_count cnt (return_count cnt w) = sum_list (map cnt w)"
  by (simp add: total_count_def return_count_def comp_def)

lemma returns_total_return_count:
  assumes "\<And>mr. 0 \<le> cnt mr"
  shows "returns_total cnt (return_count cnt w)"
proof -
  have "0 \<le> sum_list (map cnt w)" using assms by (induction w) auto
  then show ?thesis
    unfolding returns_total_def total_return_count
    by (simp add: return_count_def list_all_iff allreduce_sum_def to_int32_nonneg)
qed

lemma spmd_returns_total:
  assumes "\<And>mr. 0 \<le> cnt mr" and "spmd f cnt w = Inr x"
  shows "returns_total cnt x"
  using assms(2) returns_total_return_count [OF assms(1)]
  by (auto simp: spmd_def split: sum.splits)

lemma spmd_holds:
  assumes "\<And>mr mr'. mr \<in> set w \<Longrightarrow> f mr = Inr mr' \<Longrightarrow> P mr'" and "spmd f cnt w = Inr x"
  shows "list_all (\<lambda>p. P (fst p)) x"
proof -
  from assms(2) obtain w1 where 1: "each_rank f w = Inr w1" and 2: "x = return_count cnt w1"
    by (auto simp: spmd_def split: sum.splits)
  have "list_all P w1"
    using each_rank_all [of w f P, OF assms(1) 1] .
  then show ?thesis by (simp add: 2 return_count_def list_all_iff)
qed

lemma stats_keeps:
  "stats heading which level mr = Inr mr' \<Longrightarrow> mr_kv mr' = mr_kv mr \<and> mr_kmv mr' = mr_kmv mr"
  by (auto simp: stats_def kv_stats_def kmv_stats_def say_def Let_def split: if_splits option.splits)


lemma convert_rank_holds: "convert_rank kc mr = Inr mr' \<Longrightarrow> mr_kmv mr' \<noteq> None"
  by (auto simp: convert_rank_def dest!: stats_keeps split: option.splits sum.splits)

lemma clone_rank_holds: "clone_rank kc mr = Inr mr' \<Longrightarrow> mr_kmv mr' \<noteq> None"
  by (auto simp: clone_rank_def dest!: stats_keeps split: option.splits sum.splits)

lemma collapse_rank_holds: "collapse_rank kc key mr = Inr mr' \<Longrightarrow> mr_kmv mr' \<noteq> None"
  by (auto simp: collapse_rank_def dest!: stats_keeps split: option.splits sum.splits)

lemma sort_multivalues_rank_holds: "sort_multivalues_rank ms mr = Inr mr' \<Longrightarrow> mr_kmv mr' \<noteq> None"
  by (auto simp: sort_multivalues_rank_def dest!: stats_keeps split: option.splits sum.splits prod.splits)

lemma reduce_rank_holds: "reduce_rank app mr = Inr mr' \<Longrightarrow> mr_kv mr' \<noteq> None"
  by (auto simp: reduce_rank_def dest!: stats_keeps split: option.splits sum.splits)

lemma compress_rank_holds: "compress_rank kc app mr = Inr mr' \<Longrightarrow> mr_kv mr' \<noteq> None"
  by (auto simp: compress_rank_def Let_def dest!: stats_keeps split: option.splits sum.splits)

lemma sort_kv_holds: "sort_kv qs pg ps ab cmp flag mr kv = Inr mr' \<Longrightarrow> mr_kv mr' \<noteq> None"
  by (auto simp: sort_kv_def Let_def split: sum.splits prod.splits if_splits)

lemma sort_keys_rank_holds: "sort_keys_rank qs pg ps ab cmp mr = Inr mr' \<Longrightarrow> mr_kv mr' \<noteq> None"
  by (auto simp: sort_keys_rank_def dest!: stats_keeps sort_kv_holds split: option.splits sum.splits)

lemma sort_values_rank_holds: "sort_values_rank qs pg ps ab cmp mr = Inr mr' \<Longrightarrow> mr_kv mr' \<noteq> None"
  by (auto simp: sort_values_rank_def dest!: stats_keeps sort_kv_holds split: option.splits sum.splits)

lemma add_rank_holds: "add_rank kv_add p = Inr mr' \<Longrightarrow> mr_kv mr' \<noteq> None"
  by (auto simp: add_rank_def dest!: stats_keeps split: option.splits sum.splits prod.splits if_splits)

lemma map_rank_holds: "map_rank handed nmap appmap addflag mr = Inr mr' \<Longrightarrow> mr_kv mr' \<noteq> None"
  unfolding map_rank_def Let_def bind_Inr
  by (auto simp: bind_Inr dest!: stats_keeps split: prod.splits)

lemma single_rank: "is_group w \<Longrightarrow> list_all (\<lambda>mr. nprocs mr = 1) w \<Longrightarrow> length w \<le> 1"
  by (cases w) (auto simp: is_group_def)

lemma no_missing_kv: "\<not> list_ex (\<lambda>mr. mr_kv mr = None) w \<Longrightarrow> mr \<in> set w \<Longrightarrow> mr_kv mr \<noteq> None"
  by (auto simp: list_ex_iff)

lemma aggregate_returns:
  assumes g: "is_group w" and r: "aggregate sh h w = Inr x"
  shows "returns_total kv_count x \<and> holds_kv x"
proof -
  have kv: "\<not> list_ex (\<lambda>mr. mr_kv mr = None) w"
    using r by (auto simp: aggregate_def split: if_splits)
  show ?thesis
  proof (cases "list_all (\<lambda>mr. nprocs mr = 1) w")
    case True
    from r kv True obtain w1 where 1: "each_rank (\<lambda>mr. stats ''Aggregate'' 0 (verbosity mr) mr) w = Inr w1"
      and 2: "x = map (\<lambda>mr. (mr, to_int32 (kv_count mr))) w1"
      by (auto simp: aggregate_def split: sum.splits)
    have "length w1 \<le> 1"
      using single_rank [OF g True] each_rank_length [OF 1] by simp
    then have rt: "returns_total kv_count x"
      using kv_count_nonneg
      by (cases w1) (auto simp: 2 returns_total_def total_count_def to_int32_nonneg)
    have "\<And>a b. a \<in> set w \<Longrightarrow> stats ''Aggregate'' 0 (verbosity a) a = Inr b \<Longrightarrow> mr_kv b \<noteq> None"
      using no_missing_kv [OF kv] by (auto dest!: stats_keeps)
    from each_rank_all [of w _ "\<lambda>mr. mr_kv mr \<noteq> None", OF this 1]
    have "list_all (\<lambda>mr. mr_kv mr \<noteq> None) w1" .
    then show ?thesis using rt by (simp add: holds_kv_def 2 list_all_iff)
  next
    case False
    from r kv False obtain kvnew where
      1: "spmd (\<lambda>mr. case complete (kvnew (me mr)) of
                          Inl e \<Rightarrow> Inl e
                        | Inr kv \<Rightarrow> stats ''Aggregate'' 0 (verbosity mr)
                                      ((memswap mr)\<lparr>mr_kv := Some kv\<rparr>))
                  kv_count w = Inr x"
      by (auto simp: aggregate_def split: sum.splits)
    have "\<And>mr mr'. (case complete (kvnew (me mr)) of
                          Inl e \<Rightarrow> Inl e
                        | Inr kv \<Rightarrow> stats ''Aggregate'' 0 (verbosity mr)
                                      ((memswap mr)\<lparr>mr_kv := Some kv\<rparr>)) = Inr mr' \<Longrightarrow> mr_kv mr' \<noteq> None"
      by (auto dest!: stats_keeps split: sum.splits)
    from spmd_holds [of w _ "\<lambda>mr. mr_kv mr \<noteq> None", OF this 1]
    show ?thesis
      using spmd_returns_total [OF kv_count_nonneg 1] by (simp add: holds_kv_def)
  qed
qed

lemma gather_returns:
  assumes r: "gather mv numprocs w = Inr x"
  shows "returns_total kv_count x \<and> holds_kv x"
proof -
  have kv: "\<not> list_ex (\<lambda>mr. mr_kv mr = None) w"
    using r by (auto simp: gather_def split: if_splits)
  from r obtain f where 1: "spmd f kv_count w = Inr x"
    and 2: "\<And>mr mr'. mr \<in> set w \<Longrightarrow> f mr = Inr mr' \<Longrightarrow> mr_kv mr' \<noteq> None"
  proof (cases "list_all (\<lambda>mr. nprocs mr = 1 \<or> numprocs = int (nprocs mr)) w")
    case True
    show ?thesis
      apply (rule that [of "\<lambda>mr. stats ''Gather'' 0 (verbosity mr) mr"])
      using r kv True no_missing_kv [OF kv]
      by (auto simp: gather_def dest!: stats_keeps split: if_splits)
  next
    case False
    from r kv False obtain kvs where
      3: "spmd (\<lambda>mr. case complete (kvs (me mr)) of
                          Inl e \<Rightarrow> Inl e
                        | Inr kv \<Rightarrow> stats ''Gather'' 0 (verbosity mr)
                                      ((if int (me mr) < numprocs then mr else memswap mr)
                                         \<lparr>mr_kv := Some kv\<rparr>))
                  kv_count w = Inr x"
      by (auto simp: gather_def split: sum.splits if_splits)
    show ?thesis
      apply (rule that [OF 3])
      by (auto dest!: stats_keeps split: sum.splits if_splits)
  qed
  show ?thesis
    using spmd_returns_total [OF kv_count_nonneg 1]
      spmd_holds [of w f "\<lambda>mr. mr_kv mr \<noteq> None", OF 2 1]
    by (simp add: holds_kv_def)
qed

lemma add_mr_returns:
  assumes r: "add_mr kv_add others w = Inr x"
  shows "returns_total kv_count x \<and> holds_kv x"
proof -
  from r obtain w1 where 1: "each_rank (add_rank kv_add) (zip w others) = Inr w1"
    and 2: "x = return_count kv_count w1"
    by (auto simp: add_mr_def split: sum.splits)
  have "list_all (\<lambda>mr. mr_kv mr \<noteq> None) w1"
    using each_rank_all [of "zip w others" "add_rank kv_add" "\<lambda>mr. mr_kv mr \<noteq> None", OF _ 1]
      add_rank_holds by blast
  then show ?thesis
    using returns_total_return_count [OF kv_count_nonneg, where w = w1]
    by (simp add: 2 holds_kv_def return_count_def list_all_iff)
qed

lemma restore_settings_holds:
  "restore_settings heading p = Inr mr' \<Longrightarrow> mr_kmv (snd p) \<noteq> None \<Longrightarrow> mr_kmv mr' \<noteq> None"
  by (auto simp: restore_settings_def dest!: stats_keeps split: prod.splits)

lemma restored_returns:
  assumes 0: "list_all (\<lambda>p. mr_kmv (fst p) \<noteq> None) r2"
    and 1: "each_rank (restore_settings heading) (zip w (map fst r2)) = Inr w3"
    and 2: "x = return_count kmv_count w3"
  shows "returns_total kmv_count x \<and> holds_kmv x"
proof -
  have "\<And>a b. a \<in> set (zip w (map fst r2)) \<Longrightarrow> restore_settings heading a = Inr b \<Longrightarrow> mr_kmv b \<noteq> None"
  proof -
    fix a b assume a: "a \<in> set (zip w (map fst r2))" and b: "restore_settings heading a = Inr b"
    obtain u v where uv: "a = (u, v)" by (cases a)
    have "snd a \<in> set (map fst r2)" using a set_zip_rightD [of u v w "map fst r2"] by (simp add: uv)
    then have "mr_kmv (snd a) \<noteq> None" using 0 by (auto simp: list_all_iff)
    then show "mr_kmv b \<noteq> None" using restore_settings_holds [OF b] by simp
  qed
  then have "list_all (\<lambda>mr. mr_kmv mr \<noteq> None) w3"
    using each_rank_all [of "zip w (map fst r2)" "restore_settings heading" "\<lambda>mr. mr_kmv mr \<noteq> None", OF _ 1]
    by blast
  then show ?thesis
    using returns_total_return_count [OF kmv_count_nonneg, where w = w3]
    by (simp add: 2 holds_kmv_def return_count_def list_all_iff)
qed

lemma collate_returns:
  assumes r: "collate sh kc h w = Inr x"
  shows "returns_total kmv_count x \<and> holds_kmv x"
proof -
  from r obtain r1 :: "(MapReduce \<times> int) list" and r2 w3 where 1: "convert kc (map fst r1) = Inr r2"
    and 2: "each_rank (restore_settings ''Collate'') (zip w (map fst r2)) = Inr w3"
    and 3: "x = return_count kmv_count w3"
    by (auto simp: collate_def split: sum.splits if_splits)
  have "list_all (\<lambda>p. mr_kmv (fst p) \<noteq> None) r2"
    using spmd_holds [of "map fst r1" "convert_rank kc" "\<lambda>mr. mr_kmv mr \<noteq> None" kmv_count r2]
      convert_rank_holds 1 by (auto simp: convert_def)
  from restored_returns [OF this 2 3] show ?thesis .
qed

lemma scrunch_returns:
  assumes r: "scrunch mv kl numprocs key w = Inr x"
  shows "returns_total kmv_count x \<and> holds_kmv x"
proof -
  from r obtain r1 :: "(MapReduce \<times> int) list" and r2 w3 where 1: "collapse kl key (map fst r1) = Inr r2"
    and 2: "each_rank (restore_settings ''Scrunch'') (zip w (map fst r2)) = Inr w3"
    and 3: "x = return_count kmv_count w3"
    by (auto simp: scrunch_def split: sum.splits if_splits)
  have "list_all (\<lambda>p. mr_kmv (fst p) \<noteq> None) r2"
    using spmd_holds [of "map fst r1" "collapse_rank kl key" "\<lambda>mr. mr_kmv mr \<noteq> None" kmv_count r2]
      collapse_rank_holds 1 by (auto simp: collapse_def)
  from restored_returns [OF this 2 3] show ?thesis .
qed

lemma spmd_kv:
  assumes "\<And>mr mr'. f mr = Inr mr' \<Longrightarrow> mr_kv mr' \<noteq> None" and "spmd f kv_count w = Inr x"
  shows "returns_total kv_count x \<and> holds_kv x"
  using spmd_returns_total [OF kv_count_nonneg assms(2)]
    spmd_holds [of w f "\<lambda>mr. mr_kv mr \<noteq> None", OF assms(1) assms(2)]
  by (simp add: holds_kv_def)

lemma spmd_kmv:
  assumes "\<And>mr mr'. f mr = Inr mr' \<Longrightarrow> mr_kmv mr' \<noteq> None" and "spmd f kmv_count w = Inr x"
  shows "returns_total kmv_count x \<and> holds_kmv x"
  using spmd_returns_total [OF kmv_count_nonneg assms(2)]
    spmd_holds [of w f "\<lambda>mr. mr_kmv mr \<noteq> None", OF assms(1) assms(2)]
  by (simp add: holds_kmv_def)

text \<open>
  Claim C9, as the code has it.  Every operator of the driver that returns, returns to
  every rank of the group the same \<open>int\<close>: the sum over the ranks of the pair count of
  the container the operator leaves (the KeyValue for \<open>map\<close>, \<open>add\<close>, \<open>aggregate\<close>,
  \<open>compress\<close>, \<open>reduce\<close>, \<open>gather\<close>, \<open>sort_keys\<close>, \<open>sort_values\<close>; the KeyMultiValue for
  \<open>convert\<close>, \<open>collate\<close>, \<open>clone\<close>, \<open>collapse\<close>, \<open>scrunch\<close>, \<open>sort_multivalues\<close>), which
  every rank then holds.  The sum is taken by \<open>MPI_Allreduce\<close> on \<open>MPI_INT\<close>: the value
  returned is the total reduced to a signed 32-bit \<open>int\<close>, and is the total itself when
  that is below \<open>2 ^ 31\<close>.
\<close>

theorem operators_return_int_sum:
  assumes "is_group w"
  shows
   "(\<forall>x. map_mr handed nmap appmap addflag w = Inr x \<longrightarrow> returns_total kv_count x \<and> holds_kv x)
  \<and> (\<forall>x. add_mr kv_add others w = Inr x \<longrightarrow> returns_total kv_count x \<and> holds_kv x)
  \<and> (\<forall>x. aggregate sh h w = Inr x \<longrightarrow> returns_total kv_count x \<and> holds_kv x)
  \<and> (\<forall>x. compress kc app w = Inr x \<longrightarrow> returns_total kv_count x \<and> holds_kv x)
  \<and> (\<forall>x. reduce app w = Inr x \<longrightarrow> returns_total kv_count x \<and> holds_kv x)
  \<and> (\<forall>x. gather mv numprocs w = Inr x \<longrightarrow> returns_total kv_count x \<and> holds_kv x)
  \<and> (\<forall>x. sort_keys qs pg ps ab cmp w = Inr x \<longrightarrow> returns_total kv_count x \<and> holds_kv x)
  \<and> (\<forall>x. sort_values qs pg ps ab cmp w = Inr x \<longrightarrow> returns_total kv_count x \<and> holds_kv x)
  \<and> (\<forall>x. convert kc w = Inr x \<longrightarrow> returns_total kmv_count x \<and> holds_kmv x)
  \<and> (\<forall>x. collate sh kc h w = Inr x \<longrightarrow> returns_total kmv_count x \<and> holds_kmv x)
  \<and> (\<forall>x. clone kn w = Inr x \<longrightarrow> returns_total kmv_count x \<and> holds_kmv x)
  \<and> (\<forall>x. collapse kl key w = Inr x \<longrightarrow> returns_total kmv_count x \<and> holds_kmv x)
  \<and> (\<forall>x. scrunch mv kl numprocs key w = Inr x \<longrightarrow> returns_total kmv_count x \<and> holds_kmv x)
  \<and> (\<forall>x. sort_multivalues ms w = Inr x \<longrightarrow> returns_total kmv_count x \<and> holds_kmv x)"
  apply (intro conjI allI impI)
  using aggregate_returns [OF assms] gather_returns add_mr_returns collate_returns scrunch_returns
    spmd_kv [OF map_rank_holds] spmd_kv [OF compress_rank_holds] spmd_kv [OF reduce_rank_holds]
    spmd_kv [OF sort_keys_rank_holds] spmd_kv [OF sort_values_rank_holds]
    spmd_kmv [OF convert_rank_holds] spmd_kmv [OF clone_rank_holds]
    spmd_kmv [OF collapse_rank_holds] spmd_kmv [OF sort_multivalues_rank_holds]
  by (simp_all only: map_mr_def compress_def reduce_def sort_keys_def sort_values_def convert_def
        clone_def collapse_def sort_multivalues_def)

text \<open>
  A run of \<open>map\<close> on two ranks with three tasks, each adding one pair: chunks give task 0
  to rank 0 and tasks 1 and 2 to rank 1, and both ranks are returned 3.
\<close>

lemma map_example:
  "\<exists>x. map_mr (\<lambda>r. []) 3 (\<lambda>itask kv. add kv [word_of_int itask] [7]) 0 two_ranks = Inr x \<and>
       map snd x = [3, 3] \<and> map (\<lambda>p. kv_count (fst p)) x = [1, 2]"
  by (simp add: map_mr_def spmd_def map_rank_def two_ranks_def MapReduce_new_def allocate_def MBYTES_def
        ALIGNKV_def pow2_loop_4 Let_def memswap_def fresh_kv_def map_tasks_def return_count_def
        allreduce_sum_def kv_count_def stats_def chunk_tasks_def chunk_bound_def
        complete_def KeyValue_new_def create_page_def init_page_def set_totals_def
        roundup_def twolenbytes_def to_int32_def upt_rec [of 0] upt_rec [of "Suc 0"]
        add.simps R3 INTMAX_def)

theorem operators_return_int_sum_witness:
  "is_group two_ranks \<and>
   (\<exists>x. map_mr (\<lambda>r. []) 3 (\<lambda>itask kv. add kv [word_of_int itask] [7]) 0 two_ranks = Inr x \<and>
        returns_total kv_count x \<and> holds_kv x \<and> total_count kv_count x = 3 \<and> map snd x = [3, 3])"
proof -
  have g: "is_group two_ranks"
    by (simp add: is_group_def two_ranks_def MapReduce_new_def upt_rec [of 0] upt_rec [of "Suc 0"])
  obtain x where x: "map_mr (\<lambda>r. []) 3 (\<lambda>itask kv. add kv [word_of_int itask] [7]) 0 two_ranks = Inr x"
    "map snd x = [3, 3]" "map (\<lambda>p. kv_count (fst p)) x = [1, 2]"
    using map_example by (elim exE conjE)
  have "returns_total kv_count x \<and> holds_kv x"
    using operators_return_int_sum [OF g, where handed = "\<lambda>r. []" and nmap = 3
        and appmap = "\<lambda>itask kv. add kv [word_of_int itask] [7]" and addflag = 0,
        THEN conjunct1, rule_format, OF x(1)] .
  then show ?thesis using g x by (auto simp: total_count_def)
qed

text \<open>
  Claim C9 as stated has the operators return a \<open>uint64\<close> equal to the total.  They
  return \<open>int\<close>, and the sum is taken on \<open>MPI_INT\<close>.  On two ranks that hold \<open>2 ^ 30\<close> pairs
  each, \<open>gather(2)\<close> leaves \<open>2 ^ 31\<close> pairs in the group and returns \<open>- 2 ^ 31\<close> to both
  ranks.
\<close>

theorem operators_return_uint64_counterexample:
  "\<exists>x. gather (\<lambda>n w. Inl (ErrorAll [])) 2
          (map (\<lambda>mr. mr\<lparr>mr_kv := Some ((KeyValue_new zero_mem True 0 1024 4 4)\<lparr>nkv := 2 ^ 30\<rparr>)\<rparr>)
               two_ranks) = Inr x \<and>
       total_count kv_count x = 2147483648 \<and>
       map snd x = [- 2147483648, - 2147483648]"
  by (simp add: gather_def spmd_def two_ranks_def MapReduce_new_def stats_def return_count_def
        allreduce_sum_def kv_count_def total_count_def to_int32_def)

text \<open>
  \<open>sort_multivalues\<close> ends with \<open>stats("Sort_multivalues",0,verbosity)\<close>, which prints the
  figures of the KeyValue.  With a KeyMultiValue, no KeyValue and \<open>verbosity\<close> set, the
  operator does not return.
\<close>

lemma sort_multivalues_stats_example:
  "sort_multivalues (\<lambda>vs. vs)
     [(MapReduce_new 0 0 1 0)\<lparr>verbosity := 1, mr_kmv := Some \<lparr>nkmv = 0, kmv_pages = []\<rparr>\<rparr>]
   = Inl (ErrorAll ''Cannot print stats without KeyValue'')"
  by (simp add: sort_multivalues_def spmd_def sort_multivalues_rank_def MapReduce_new_def stats_def
        kv_stats_def say_def)

section \<open>The tasks of \<open>map\<close>\<close>











lemma map_tasks_fields:
  "me mr' = me mr \<Longrightarrow> nprocs mr' = nprocs mr \<Longrightarrow> mapstyle mr' = mapstyle mr \<Longrightarrow>
   map_tasks handed nmap mr' = map_tasks handed nmap mr"
  by (simp add: map_tasks_def)





text \<open>
  Outside the claim's range: \<open>nmap\<close> is an \<open>int\<close>, and \<open>uint64_t nmap64 = nmap\<close> turns a
  negative \<open>nmap\<close> into a large number.  With \<open>nmap = - 1\<close> on three ranks, rank 0 gets
  \<open>lo = 0\<close> and \<open>hi = 1431655765\<close>.
\<close>

lemma chunk_negative_example:
  "chunk_bound 0 (- 1) 3 = 0 \<and> chunk_bound 1 (- 1) 3 = 1431655765"
proof -
  have "to_int32 6148914691236517205 = to_int32 (6148914691236517205 mod 4294967296)"
    by (simp only: to_int32_mod)
  also have "\<dots> = 1431655765" by (simp add: to_int32_nonneg)
  finally have "to_int32 6148914691236517205 = 1431655765" .
  moreover have "to_int32 0 = 0" by (simp add: to_int32_nonneg)
  ultimately show ?thesis by (simp add: chunk_bound_def)
qed

section \<open>\<open>sort_multivalues\<close> and block-split multivalues\<close>






section \<open>\<open>collate\<close> is \<open>aggregate\<close>, then \<open>convert\<close>\<close>



lemma silent_hold [simp]: "silent (hold_settings mr) = silent mr"
  by (simp add: silent_def hold_settings_def)












lemma return_count_length: "length (return_count cnt v) = length v"
  by (simp add: return_count_def)

















section \<open>Sorting a KeyValue\<close>





lemma ordered_tl: "ordered cmp flag es \<Longrightarrow> ordered cmp flag (tl es)"
  by (cases es) (simp_all add: ordered_def)

lemma ordered_hd: "ordered cmp flag es \<Longrightarrow> x \<in> set (tl es) \<Longrightarrow> precedes cmp flag (hd es) x"
  by (cases es) (simp_all add: ordered_def)


































end
